theory Spec2Isabelle
  imports Main "HOL-Library.Word" "HOL-Library.Sublist"
begin

unbundle bit_operations_syntax

section \<open>Go values shared by the models\<close>

type_synonym byte = "8 word"

text \<open>Run-time panics of the Go runtime that the modelled code can reach.\<close>

datatype go_panic =
    SliceBoundsOutOfRange
  | MakeSliceLenOutOfRange
  | SendOnClosedChannel
  | CloseOfClosedChannel
  | CloseOfNilChannel

text \<open>\<^verbatim>\<open>make([]byte, n)\<close>: a zeroed slice of length and capacity \<open>n\<close>; panics for negative \<open>n\<close>.\<close>

definition go_make :: "int \<Rightarrow> go_panic + byte list" where
  "go_make n = (if n < 0 then Inl MakeSliceLenOutOfRange else Inr (replicate (nat n) 0))"

text \<open>
  \<^verbatim>\<open>s[lo:hi]\<close> on a slice whose capacity equals its length (every slice of the buffer
  package comes straight from \<^verbatim>\<open>make\<close>): panics unless \<open>0 \<le> lo \<le> hi \<le> len(s)\<close>.
\<close>

definition go_slice :: "byte list \<Rightarrow> int \<Rightarrow> int \<Rightarrow> go_panic + byte list" where
  "go_slice s lo hi =
     (if 0 \<le> lo \<and> lo \<le> hi \<and> hi \<le> int (length s)
      then Inr (take (nat hi - nat lo) (drop (nat lo) s))
      else Inl SliceBoundsOutOfRange)"

text \<open>
  \<^verbatim>\<open>copy(dst, src)\<close>: overwrites the first \<open>min(len(dst), len(src))\<close> bytes of \<open>dst\<close>;
  the value is the contents of \<open>dst\<close> afterwards.
\<close>

definition go_copy :: "byte list \<Rightarrow> byte list \<Rightarrow> byte list" where
  "go_copy dst src = take (length dst) src @ drop (length src) dst"

section \<open>buffer: elasticUnsafeByteBuf\<close>

record ByteBuf =
  buffer :: "byte list"
  readIndex :: int
  writeIndex :: int
  capacity :: int

definition NewElasticUnsafeByteBuf :: "int \<Rightarrow> ByteBuf" where
  "NewElasticUnsafeByteBuf initSize =
     (let initSize' = (if initSize < 0 then 0 else initSize)
      in \<lparr>buffer = replicate (nat initSize') 0, readIndex = 0, writeIndex = 0,
          capacity = initSize'\<rparr>)"

definition calcReadableBytes :: "ByteBuf \<Rightarrow> int" where
  "calcReadableBytes pb = writeIndex pb - readIndex pb"

definition calcWritableBytes :: "ByteBuf \<Rightarrow> int" where
  "calcWritableBytes pb = capacity pb - writeIndex pb"

definition ReadableBytes :: "ByteBuf \<Rightarrow> int" where
  "ReadableBytes pb = calcReadableBytes pb"

definition ReadBytes :: "ByteBuf \<Rightarrow> int \<Rightarrow> go_panic + (byte list \<times> ByteBuf)" where
  "ReadBytes pb len =
     (if len < 0 then Inr ([], pb)
      else
        (case go_make len of
           Inl p \<Rightarrow> Inl p
         | Inr result \<Rightarrow>
             (let targetReadIndex =
                    (if readIndex pb + len \<le> writeIndex pb then readIndex pb + len
                     else writeIndex pb)
              in (case go_slice (buffer pb) (readIndex pb) targetReadIndex of
                    Inl p \<Rightarrow> Inl p
                  | Inr src \<Rightarrow>
                      Inr (go_copy result src, pb\<lparr>readIndex := targetReadIndex\<rparr>)))))"

text \<open>
  The growth policy \<^verbatim>\<open>int(float32(n) * 1.2)\<close>, in exact integer arithmetic.
  \<open>round24\<close> rounds a natural number to the nearest one with at most 24 significant
  bits, ties to even: the conversion of an integer to IEEE-754 binary32. The constant
  \<^verbatim>\<open>1.2\<close> becomes the binary32 value \<open>10066330 / 2^23\<close>; the product of two binary32
  values is rounded to binary32 again, and \<^verbatim>\<open>int(...)\<close> truncates.
\<close>

fun f32_shift :: "nat \<Rightarrow> nat" where
  "f32_shift n = (if n < 2 ^ 24 then 0 else Suc (f32_shift (n div 2)))"

declare f32_shift.simps [simp del]

definition round24 :: "nat \<Rightarrow> nat" where
  "round24 n =
     (let sh = f32_shift n; q = n div 2 ^ sh; r = n mod 2 ^ sh
      in if 2 ^ sh < 2 * r \<or> (2 * r = 2 ^ sh \<and> odd q) then (q + 1) * 2 ^ sh else q * 2 ^ sh)"

definition growF32 :: "nat \<Rightarrow> nat" where
  "growF32 n = round24 (round24 n * 10066330) div 2 ^ 23"

definition newSizeF32 :: "int \<Rightarrow> int" where
  "newSizeF32 x = (if x < 0 then - int (growF32 (nat (- x))) else int (growF32 (nat x)))"

definition WriteBytes :: "ByteBuf \<Rightarrow> byte list \<Rightarrow> go_panic + ByteBuf" where
  "WriteBytes pb bytes =
     (let writeSize = int (length bytes)
      in if writeSize = 0 then Inr pb
         else
           (case (if calcWritableBytes pb < writeSize
                  then (let newSize = newSizeF32 (writeSize + writeIndex pb)
                        in (case go_make newSize of
                              Inl p \<Rightarrow> Inl p
                            | Inr newBuffer \<Rightarrow>
                                Inr (pb\<lparr>buffer := go_copy newBuffer (buffer pb),
                                        capacity := newSize\<rparr>)))
                  else Inr pb) of
              Inl p \<Rightarrow> Inl p
            | Inr pb1 \<Rightarrow>
                (case go_slice (buffer pb1) (writeIndex pb1) (int (length (buffer pb1))) of
                   Inl p \<Rightarrow> Inl p
                 | Inr dst \<Rightarrow>
                     Inr (pb1\<lparr>buffer := take (nat (writeIndex pb1)) (buffer pb1) @ go_copy dst bytes,
                              writeIndex := writeIndex pb1 + writeSize\<rparr>))))"

definition Release :: "ByteBuf \<Rightarrow> go_panic + ByteBuf" where
  "Release pb =
     (case go_make (capacity pb - readIndex pb) of
        Inl p \<Rightarrow> Inl p
      | Inr newBuffer \<Rightarrow>
          (case go_slice (buffer pb) (readIndex pb) (writeIndex pb) of
             Inl p \<Rightarrow> Inl p
           | Inr src \<Rightarrow>
               Inr (pb\<lparr>buffer := go_copy newBuffer src,
                       writeIndex := writeIndex pb - readIndex pb,
                       readIndex := 0\<rparr>)))"

text \<open>
  The representation invariant of the buffer (the picture in the source:
  \<open>0 \<le> readerIndex \<le> writerIndex \<le> capacity\<close>, with \<open>capacity\<close> the length of the
  backing slice), and the readable region \<open>[readIndex, writeIndex)\<close>.
\<close>

definition wf_buf :: "ByteBuf \<Rightarrow> bool" where
  "wf_buf pb \<longleftrightarrow>
     0 \<le> readIndex pb \<and> readIndex pb \<le> writeIndex pb \<and>
     writeIndex pb \<le> int (length (buffer pb)) \<and> capacity pb = int (length (buffer pb))"

definition readable :: "ByteBuf \<Rightarrow> byte list" where
  "readable pb =
     take (nat (writeIndex pb - readIndex pb)) (drop (nat (readIndex pb)) (buffer pb))"

text \<open>
  A script of buffer calls, run in order; the value lists what each \<^verbatim>\<open>ReadBytes\<close>
  returned. A panic ends the run.
\<close>

datatype buf_op = OpWriteBytes "byte list" | OpReadBytes int | OpRelease

fun apply_ops :: "ByteBuf \<Rightarrow> buf_op list \<Rightarrow> go_panic + (byte list list \<times> ByteBuf)" where
  "apply_ops pb [] = Inr ([], pb)"
| "apply_ops pb (OpWriteBytes bs # ops) =
     (case WriteBytes pb bs of Inl p \<Rightarrow> Inl p | Inr pb' \<Rightarrow> apply_ops pb' ops)"
| "apply_ops pb (OpReadBytes n # ops) =
     (case ReadBytes pb n of
        Inl p \<Rightarrow> Inl p
      | Inr (bs, pb') \<Rightarrow>
          (case apply_ops pb' ops of Inl p \<Rightarrow> Inl p | Inr (rs, pb'') \<Rightarrow> Inr (bs # rs, pb'')))"
| "apply_ops pb (OpRelease # ops) =
     (case Release pb of Inl p \<Rightarrow> Inl p | Inr pb' \<Rightarrow> apply_ops pb' ops)"

text \<open>A buffer holding three unread bytes, used as a concrete state below.\<close>

definition three_unread :: ByteBuf where
  "three_unread = \<lparr>buffer = [1, 2, 3, 0], readIndex = 0, writeIndex = 3, capacity = 4\<rparr>"

section \<open>codec: errors and the TLV frame codec\<close>

text \<open>
  \<^verbatim>\<open>DecodeError{decoder, msg}\<close> and \<^verbatim>\<open>EncodeError{encoder, msg}\<close>. The message is kept
  structured: a fixed text, the formatted frame-size message with its two numbers, or the
  text of another error (\<^verbatim>\<open>err.Error()\<close>).
\<close>

datatype codec_error = DecodeError string cause | EncodeError string cause
  and cause = Msg string | FrameSizeLargerThanLimit nat nat | ErrorText codec_error

text \<open>
  The result pair \<^verbatim>\<open>(interface{}, error)\<close> of a decoder: \<^verbatim>\<open>(nil, nil)\<close>,
  \<^verbatim>\<open>(value, nil)\<close> or \<^verbatim>\<open>(nil, err)\<close>.
\<close>

datatype 'a decoded = Nothing | Decoded 'a | Failed codec_error

definition TagSize :: int where "TagSize = 1"
definition LengthSize :: int where "LengthSize = 4"

record TLVConfig =
  TagValue :: "8 word"
  FrameLimit :: "32 word"

record TLVFrameDecoder =
  Config :: TLVConfig
  hasTag :: bool
  hasLength :: bool
  tagValue :: "8 word"
  lengthValue :: "32 word"

definition NewTLVFrameDecoder :: "TLVConfig \<Rightarrow> TLVFrameDecoder" where
  "NewTLVFrameDecoder config =
     \<lparr>Config = config, hasTag = False, hasLength = False, tagValue = 0, lengthValue = 0\<rparr>"

text \<open>
  \<^verbatim>\<open>encoding/binary\<close> with \<^verbatim>\<open>binary.BigEndian\<close>. \<^verbatim>\<open>binary.Read\<close> from a
  \<^verbatim>\<open>bytes.Reader\<close> over \<open>bs\<close> fails with \<^verbatim>\<open>EOF\<close> on an empty input and with
  \<^verbatim>\<open>unexpected EOF\<close> on a short one.
\<close>

definition binary_Read_uint8 :: "byte list \<Rightarrow> string + 8 word" where
  "binary_Read_uint8 bs = (case bs of [] \<Rightarrow> Inl ''EOF'' | b # _ \<Rightarrow> Inr b)"

definition BigEndian_Uint32 :: "byte \<Rightarrow> byte \<Rightarrow> byte \<Rightarrow> byte \<Rightarrow> 32 word" where
  "BigEndian_Uint32 b0 b1 b2 b3 =
     ucast b3 OR push_bit 8 (ucast b2) OR push_bit 16 (ucast b1) OR push_bit 24 (ucast b0)"

definition binary_Read_uint32 :: "byte list \<Rightarrow> string + 32 word" where
  "binary_Read_uint32 bs =
     (case bs of
        [] \<Rightarrow> Inl ''EOF''
      | b0 # b1 # b2 # b3 # _ \<Rightarrow> Inr (BigEndian_Uint32 b0 b1 b2 b3)
      | _ \<Rightarrow> Inl ''unexpected EOF'')"

definition BigEndian_PutUint32 :: "32 word \<Rightarrow> byte list" where
  "BigEndian_PutUint32 v =
     [ucast (drop_bit 24 v), ucast (drop_bit 16 v), ucast (drop_bit 8 v), ucast v]"

definition resetBuffer :: "TLVFrameDecoder \<Rightarrow> TLVFrameDecoder" where
  "resetBuffer c = c\<lparr>hasTag := False, hasLength := False, tagValue := 0, lengthValue := 0\<rparr>"

text \<open>\<^verbatim>\<open>decodeSuccess(result)\<close>; the argument is \<open>None\<close> for the \<^verbatim>\<open>nil\<close> interface value.\<close>

definition decodeSuccess ::
  "TLVFrameDecoder \<Rightarrow> byte list option \<Rightarrow> byte list decoded \<times> TLVFrameDecoder" where
  "decodeSuccess c result =
     (case result of None \<Rightarrow> (Nothing, c) | Some r \<Rightarrow> (Decoded r, resetBuffer c))"

definition decodeNothing :: "TLVFrameDecoder \<Rightarrow> byte list decoded \<times> TLVFrameDecoder" where
  "decodeNothing c = decodeSuccess c None"

definition decodeFailure :: "TLVFrameDecoder \<Rightarrow> cause \<Rightarrow> byte list decoded \<times> TLVFrameDecoder" where
  "decodeFailure c cause = (Failed (DecodeError ''TLVFrameDecoder'' cause), c)"

text \<open>
  \<^verbatim>\<open>TLVFrameDecoder.Decode\<close>, one definition for each of its three blocks. A block either
  returns from \<^verbatim>\<open>Decode\<close> (\<open>Some\<close> of the result) or falls through to the next block
  (\<open>None\<close>); the decoder and the buffer are threaded through. \<^verbatim>\<open>int(c.lengthValue)\<close> is
  the unsigned value (64-bit \<^verbatim>\<open>int\<close>).
\<close>

definition parseTag ::
  "TLVFrameDecoder \<Rightarrow> ByteBuf \<Rightarrow>
     go_panic + ((byte list decoded \<times> TLVFrameDecoder) option \<times> TLVFrameDecoder \<times> ByteBuf)" where
  "parseTag c inb =
     (if \<not> hasTag c then
        (if ReadableBytes inb < TagSize then Inr (Some (decodeNothing c), c, inb)
         else
           (case ReadBytes inb TagSize of
              Inl p \<Rightarrow> Inl p
            | Inr (tmpBytes, inb') \<Rightarrow>
                (case binary_Read_uint8 tmpBytes of
                   Inl err \<Rightarrow> Inr (Some (decodeFailure c (Msg err)), c, inb')
                 | Inr tag \<Rightarrow>
                     if tag \<noteq> TagValue (Config c)
                     then Inr (Some (decodeFailure c (Msg ''illegal tag found'')), c, inb')
                     else Inr (None, c\<lparr>tagValue := tag, hasTag := True\<rparr>, inb'))))
      else Inr (None, c, inb))"

definition parseLength ::
  "TLVFrameDecoder \<Rightarrow> ByteBuf \<Rightarrow>
     go_panic + ((byte list decoded \<times> TLVFrameDecoder) option \<times> TLVFrameDecoder \<times> ByteBuf)" where
  "parseLength c inb =
     (if hasTag c \<and> \<not> hasLength c then
        (if ReadableBytes inb < LengthSize then Inr (Some (Nothing, c), c, inb)
         else
           (case ReadBytes inb LengthSize of
              Inl p \<Rightarrow> Inl p
            | Inr (tmpBytes, inb') \<Rightarrow>
                (case binary_Read_uint32 tmpBytes of
                   Inl err \<Rightarrow> Inr (Some (decodeFailure c (Msg err)), c, inb')
                 | Inr len \<Rightarrow> Inr (None, c\<lparr>lengthValue := len, hasLength := True\<rparr>, inb'))))
      else Inr (None, c, inb))"

definition parseValue ::
  "TLVFrameDecoder \<Rightarrow> ByteBuf \<Rightarrow>
     go_panic + ((byte list decoded \<times> TLVFrameDecoder) option \<times> TLVFrameDecoder \<times> ByteBuf)" where
  "parseValue c inb =
     (if hasTag c \<and> hasLength c then
        (if ReadableBytes inb < uint (lengthValue c) then Inr (Some (Nothing, c), c, inb)
         else
           (case ReadBytes inb (uint (lengthValue c)) of
              Inl p \<Rightarrow> Inl p
            | Inr (tmpBytes, inb') \<Rightarrow>
                if FrameLimit (Config c) > 0 \<and>
                   (word_of_int (TagSize + LengthSize) :: 64 word) + word_of_nat (length tmpBytes)
                     > ucast (FrameLimit (Config c))
                then Inr (Some (decodeFailure c (Msg ''frame size larger than limit'')), c, inb')
                else Inr (Some (decodeSuccess c (Some tmpBytes)), c, inb')))
      else Inr (None, c, inb))"

definition Decode ::
  "TLVFrameDecoder \<Rightarrow> ByteBuf \<Rightarrow> go_panic + (byte list decoded \<times> TLVFrameDecoder \<times> ByteBuf)" where
  "Decode c inb =
     (case parseTag c inb of
        Inl p \<Rightarrow> Inl p
      | Inr (Some (r, c'), _, inb1) \<Rightarrow> Inr (r, c', inb1)
      | Inr (None, c1, inb1) \<Rightarrow>
          (case parseLength c1 inb1 of
             Inl p \<Rightarrow> Inl p
           | Inr (Some (r, c'), _, inb2) \<Rightarrow> Inr (r, c', inb2)
           | Inr (None, c2, inb2) \<Rightarrow>
               (case parseValue c2 inb2 of
                  Inl p \<Rightarrow> Inl p
                | Inr (Some (r, c'), _, inb3) \<Rightarrow> Inr (r, c', inb3)
                | Inr (None, c3, inb3) \<Rightarrow>
                    (case decodeNothing c3 of (r, c') \<Rightarrow> Inr (r, c', inb3)))))"

text \<open>
  The \<^verbatim>\<open>interface{}\<close> argument of \<^verbatim>\<open>Encode\<close>: a byte slice, or any other value
  (including \<^verbatim>\<open>nil\<close>).
\<close>

datatype 'a go_value = ByteSlice "byte list" | OtherValue 'a

text \<open>\<^verbatim>\<open>ByteBuf.Write\<close> (the \<^verbatim>\<open>io.Writer\<close> method): the byte count comes with the buffer.\<close>

definition Write :: "ByteBuf \<Rightarrow> byte list \<Rightarrow> go_panic + (int \<times> ByteBuf)" where
  "Write pb p = (case WriteBytes pb p of Inl e \<Rightarrow> Inl e | Inr pb' \<Rightarrow> Inr (int (length p), pb'))"

text \<open>
  \<^verbatim>\<open>binary.Write(w, binary.BigEndian, v)\<close> for a \<^verbatim>\<open>uint8\<close> and a \<^verbatim>\<open>uint32\<close>: one call of
  \<^verbatim>\<open>w.Write\<close> with the encoded bytes. \<^verbatim>\<open>Encode\<close> discards its results.
\<close>

definition binary_Write_uint8 :: "ByteBuf \<Rightarrow> 8 word \<Rightarrow> go_panic + ByteBuf" where
  "binary_Write_uint8 w v = (case Write w [v] of Inl e \<Rightarrow> Inl e | Inr (_, w') \<Rightarrow> Inr w')"

definition binary_Write_uint32 :: "ByteBuf \<Rightarrow> 32 word \<Rightarrow> go_panic + ByteBuf" where
  "binary_Write_uint32 w v =
     (case Write w (BigEndian_PutUint32 v) of Inl e \<Rightarrow> Inl e | Inr (_, w') \<Rightarrow> Inr w')"

definition encodeFailure :: "cause \<Rightarrow> codec_error + byte list" where
  "encodeFailure cause = Inl (EncodeError ''TLVFrameEncoder'' cause)"

definition encodeSuccess :: "byte list \<Rightarrow> codec_error + byte list" where
  "encodeSuccess result = Inr result"

text \<open>
  \<^verbatim>\<open>TLVFrameEncoder.Encode\<close>. \<open>payloadLength\<close> is \<^verbatim>\<open>uint32(len(payload))\<close>; the sum
  \<^verbatim>\<open>payloadLength + LengthSize + TagSize\<close> is a \<^verbatim>\<open>uint32\<close> sum and is widened to
  \<^verbatim>\<open>uint64\<close> afterwards. \<open>frameSizeOf\<close> is that expression and \<open>assembleFrame\<close> the
  block under \<^verbatim>\<open>// Assemble\<close>, named so that the theorems can speak about them.
\<close>

definition payloadLengthOf :: "byte list \<Rightarrow> 32 word" where
  "payloadLengthOf payload = word_of_nat (length payload)"

definition frameSizeOf :: "byte list \<Rightarrow> 64 word" where
  "frameSizeOf payload =
     ucast (payloadLengthOf payload + word_of_int LengthSize + word_of_int TagSize)"

definition assembleFrame :: "TLVConfig \<Rightarrow> byte list \<Rightarrow> go_panic + ByteBuf" where
  "assembleFrame config payload =
     (case binary_Write_uint8 (NewElasticUnsafeByteBuf (uint (frameSizeOf payload)))
             (TagValue config) of
        Inl p \<Rightarrow> Inl p
      | Inr b1 \<Rightarrow>
          (case binary_Write_uint32 b1 (payloadLengthOf payload) of
             Inl p \<Rightarrow> Inl p
           | Inr b2 \<Rightarrow> WriteBytes b2 payload))"

definition Encode :: "TLVConfig \<Rightarrow> 'a go_value \<Rightarrow> go_panic + (codec_error + byte list)" where
  "Encode config msg =
     (case msg of
        OtherValue _ \<Rightarrow> Inr (encodeFailure (Msg ''can not transform input to []byte''))
      | ByteSlice payload \<Rightarrow>
          (let frameSize = frameSizeOf payload
           in if FrameLimit config > 0 \<and> frameSize > ucast (FrameLimit config)
              then Inr (encodeFailure
                          (FrameSizeLargerThanLimit (unat frameSize) (unat (FrameLimit config))))
              else
                (case assembleFrame config payload of
                   Inl p \<Rightarrow> Inl p
                 | Inr frameByteBuf \<Rightarrow>
                     if frameSize \<noteq> word_of_int (ReadableBytes frameByteBuf)
                     then Inr (encodeFailure (Msg ''ByteBuf issue''))
                     else
                       (case ReadBytes frameByteBuf (ReadableBytes frameByteBuf) of
                          Inl p \<Rightarrow> Inl p
                        | Inr (result, _) \<Rightarrow> Inr (encodeSuccess result)))))"

text \<open>
  The wire layout in the words of the specification: the tag, the payload length as four
  bytes, most significant first, then the payload.
\<close>

definition length_be32 :: "nat \<Rightarrow> byte list" where
  "length_be32 n =
     [word_of_nat (n div 16777216 mod 256), word_of_nat (n div 65536 mod 256),
      word_of_nat (n div 256 mod 256), word_of_nat (n mod 256)]"

definition tlv_frame :: "8 word \<Rightarrow> byte list \<Rightarrow> byte list" where
  "tlv_frame tag payload = tag # length_be32 (length payload) @ payload"

text \<open>The bytes of scenario 1: tag \<open>0xAA\<close>, a 4 MiB frame limit, the payload "Hello World.".\<close>

definition hello_config :: TLVConfig where
  "hello_config = \<lparr>TagValue = 0xAA, FrameLimit = 4194304\<rparr>"

definition hello_payload :: "byte list" where
  "hello_payload = [0x48, 0x65, 0x6C, 0x6C, 0x6F, 0x20, 0x57, 0x6F, 0x72, 0x6C, 0x64, 0x2E]"

definition hello_frame :: "byte list" where
  "hello_frame = [0xAA, 0x00, 0x00, 0x00, 0x0C] @ hello_payload"

section \<open>Feeding a decoder chunk by chunk\<close>

text \<open>
  What the reader worker observes of a decoder: a decoded value pushed to the inbound
  queue, or an error handed to \<^verbatim>\<open>handler.ChannelError\<close>.
\<close>

datatype 'a read_event = InboundData 'a | ChannelError codec_error

text \<open>
  The inner loop of \<^verbatim>\<open>handleConnRead\<close>: call \<^verbatim>\<open>Decode\<close> until it returns
  \<^verbatim>\<open>(nil, nil)\<close>. The loop need not end (a decoder may fail forever without consuming
  input), so the function is partial: \<open>None\<close> is a run that never leaves the loop.
\<close>

partial_function (option) drain ::
  "('s \<Rightarrow> ByteBuf \<Rightarrow> go_panic + ('a decoded \<times> 's \<times> ByteBuf)) \<Rightarrow> 's \<Rightarrow> ByteBuf \<Rightarrow>
     'a read_event list \<Rightarrow> (go_panic + ('a read_event list \<times> 's \<times> ByteBuf)) option" where
  "drain decode c inb out =
     (case decode c inb of
        Inl p \<Rightarrow> Some (Inl p)
      | Inr (Failed err, c', inb') \<Rightarrow> drain decode c' inb' (out @ [ChannelError err])
      | Inr (Decoded result, c', inb') \<Rightarrow> drain decode c' inb' (out @ [InboundData result])
      | Inr (Nothing, c', inb') \<Rightarrow> Some (Inr (out, c', inb')))"

text \<open>
  One chunk: append it to the input buffer (\<^verbatim>\<open>byteBuffer.WriteBytes(readBuffer[:count])\<close>),
  then drain. \<open>feed_all\<close> does this for each chunk in turn and concatenates the events.
\<close>

definition feed ::
  "('s \<Rightarrow> ByteBuf \<Rightarrow> go_panic + ('a decoded \<times> 's \<times> ByteBuf)) \<Rightarrow> 's \<Rightarrow> ByteBuf \<Rightarrow>
     byte list \<Rightarrow> (go_panic + ('a read_event list \<times> 's \<times> ByteBuf)) option" where
  "feed decode c inb chunk =
     (case WriteBytes inb chunk of
        Inl p \<Rightarrow> Some (Inl p)
      | Inr inb' \<Rightarrow> drain decode c inb' [])"

fun feed_all ::
  "('s \<Rightarrow> ByteBuf \<Rightarrow> go_panic + ('a decoded \<times> 's \<times> ByteBuf)) \<Rightarrow> 's \<Rightarrow> ByteBuf \<Rightarrow>
     byte list list \<Rightarrow> (go_panic + ('a read_event list \<times> 's \<times> ByteBuf)) option" where
  "feed_all decode c inb [] = Some (Inr ([], c, inb))"
| "feed_all decode c inb (chunk # chunks) =
     (case feed decode c inb chunk of
        None \<Rightarrow> None
      | Some (Inl p) \<Rightarrow> Some (Inl p)
      | Some (Inr (ev, c', inb')) \<Rightarrow>
          (case feed_all decode c' inb' chunks of
             None \<Rightarrow> None
           | Some (Inl p) \<Rightarrow> Some (Inl p)
           | Some (Inr (ev', c'', inb'')) \<Rightarrow> Some (Inr (ev @ ev', c'', inb''))))"

text \<open>
  A frame of the encoder: the result of \<^verbatim>\<open>Encode\<close> on a payload that is a Go slice
  (fewer than \<open>2^63\<close> elements).
\<close>

definition encoded :: "TLVConfig \<Rightarrow> byte list \<Rightarrow> byte list \<Rightarrow> bool" where
  "encoded config payload frame \<longleftrightarrow>
     length payload < 2 ^ 63 \<and>
     Encode config (ByteSlice payload :: unit go_value) = Inr (Inr frame)"

subsection \<open>Notions used in the proofs about the decoder\<close>

text \<open>A payload the encoder accepts under a configuration.\<close>

definition valid_payload :: "TLVConfig \<Rightarrow> byte list \<Rightarrow> bool" where
  "valid_payload config payload \<longleftrightarrow>
     length payload + 5 < 2 ^ 32 \<and>
     (FrameLimit config = 0 \<or> 5 + length payload \<le> unat (FrameLimit config))"

text \<open>
  The bytes of the stream that a decoder has taken from the buffer and latched, followed
  by the unread bytes: the part of the stream not yet turned into a frame.
\<close>

definition latched :: "TLVFrameDecoder \<Rightarrow> byte list" where
  "latched c =
     (if \<not> hasTag c then []
      else if \<not> hasLength c then [TagValue (Config c)]
      else TagValue (Config c) # BigEndian_PutUint32 (lengthValue c))"

definition pending :: "TLVFrameDecoder \<Rightarrow> ByteBuf \<Rightarrow> byte list" where
  "pending c inb = latched c @ readable inb"

definition tlv_inv :: "TLVConfig \<Rightarrow> TLVFrameDecoder \<Rightarrow> ByteBuf \<Rightarrow> bool" where
  "tlv_inv config c inb \<longleftrightarrow>
     wf_buf inb \<and> Config c = config \<and> (hasLength c \<longrightarrow> hasTag c)"

text \<open>The start of a frame that is not complete yet (possibly nothing at all).\<close>

definition partial_frame :: "TLVConfig \<Rightarrow> byte list \<Rightarrow> bool" where
  "partial_frame config pre \<longleftrightarrow>
     pre = [] \<or>
     (\<exists>q. valid_payload config q \<and> strict_prefix pre (tlv_frame (TagValue config) q))"

text \<open>The rest of \<^verbatim>\<open>Decode\<close> from its second and from its third block on.\<close>

definition decodeFromValue ::
  "TLVFrameDecoder \<Rightarrow> ByteBuf \<Rightarrow> go_panic + (byte list decoded \<times> TLVFrameDecoder \<times> ByteBuf)" where
  "decodeFromValue c2 inb2 =
     (case parseValue c2 inb2 of
        Inl p \<Rightarrow> Inl p
      | Inr (Some (r, c'), _, inb3) \<Rightarrow> Inr (r, c', inb3)
      | Inr (None, c3, inb3) \<Rightarrow> (case decodeNothing c3 of (r, c') \<Rightarrow> Inr (r, c', inb3)))"

definition decodeFromLength ::
  "TLVFrameDecoder \<Rightarrow> ByteBuf \<Rightarrow> go_panic + (byte list decoded \<times> TLVFrameDecoder \<times> ByteBuf)" where
  "decodeFromLength c1 inb1 =
     (case parseLength c1 inb1 of
        Inl p \<Rightarrow> Inl p
      | Inr (Some (r, c'), _, inb2) \<Rightarrow> Inr (r, c', inb2)
      | Inr (None, c2, inb2) \<Rightarrow> decodeFromValue c2 inb2)"

text \<open>The byte stream of a sequence of payloads, each framed.\<close>

definition frames :: "TLVConfig \<Rightarrow> byte list list \<Rightarrow> byte list" where
  "frames config ps = concat (map (tlv_frame (TagValue config)) ps)"

text \<open>Two payloads of 4 GiB and a little more, and the configurations they are encoded under.\<close>

definition four_gib_payload :: "byte list" where
  "four_gib_payload = replicate 4294967296 0"

definition unlimited_config :: TLVConfig where
  "unlimited_config = \<lparr>TagValue = 0xAA, FrameLimit = 0\<rparr>"

definition oversized_payload :: "byte list" where
  "oversized_payload = replicate 4294967299 0"

definition limit16_config :: TLVConfig where
  "limit16_config = \<lparr>TagValue = 0xAA, FrameLimit = 16\<rparr>"

text \<open>
  The behaviour C1 asks of a script, on a plain queue of bytes: a write appends, a read of
  \<open>n\<close> bytes (with \<open>0 \<le> n\<close> and at most the queued bytes) takes the first \<open>n\<close>, a release
  changes nothing. Reads beyond the queued bytes are outside this reference (\<open>None\<close>).
\<close>

fun fifo_ops :: "byte list \<Rightarrow> buf_op list \<Rightarrow> byte list list option" where
  "fifo_ops q [] = Some []"
| "fifo_ops q (OpWriteBytes bs # ops) = fifo_ops (q @ bs) ops"
| "fifo_ops q (OpReadBytes n # ops) =
     (if 0 \<le> n \<and> n \<le> int (length q)
      then (case fifo_ops (drop (nat n) q) ops of None \<Rightarrow> None | Some rs \<Rightarrow> Some (take (nat n) q # rs))
      else None)"
| "fifo_ops q (OpRelease # ops) = fifo_ops q ops"

text \<open>The script on which the buffer loses a byte, and the one on which it panics.\<close>

definition lossy_script :: "buf_op list" where
  "lossy_script =
     [OpWriteBytes [1, 2], OpReadBytes 2, OpRelease, OpWriteBytes [3, 4, 5],
      OpWriteBytes [6, 7], OpReadBytes 5]"

definition panic_script :: "buf_op list" where
  "panic_script =
     [OpWriteBytes [1, 2], OpReadBytes 2, OpRelease, OpWriteBytes [3, 4, 5], OpReadBytes 3]"

section \<open>codec: the typed (Apollo) frame decoder\<close>

text \<open>
  \<^verbatim>\<open>ByteBuf.Read(p)\<close>, the \<^verbatim>\<open>io.Reader\<close> method. The slice \<open>p\<close> is given by its
  length; the result is the bytes stored into \<open>p\<close> (their number is the returned count), or
  \<^verbatim>\<open>io.EOF\<close>.
\<close>

definition Read :: "ByteBuf \<Rightarrow> int \<Rightarrow> go_panic + ((string + byte list) \<times> ByteBuf)" where
  "Read pb plen =
     (let readSize = (if plen < calcReadableBytes pb then plen else calcReadableBytes pb)
      in if readSize = 0 then Inr (Inl ''EOF'', pb)
         else
           (case ReadBytes pb readSize of
              Inl e \<Rightarrow> Inl e
            | Inr (result, pb') \<Rightarrow> Inr (Inr (take (nat plen) result), pb')))"

text \<open>
  \<^verbatim>\<open>io.ReadFull(r, buf)\<close> for a buffer of \<open>k\<close> bytes read from a \<^verbatim>\<open>ByteBuf\<close>. The loop
  of \<^verbatim>\<open>io.ReadAtLeast\<close> calls \<^verbatim>\<open>Read\<close> until \<open>k\<close> bytes are there or an error occurs;
  \<^verbatim>\<open>ByteBuf.Read\<close> hands over all it can in one call, so the loop is written out for its
  first two rounds. \<^verbatim>\<open>EOF\<close> after some bytes becomes \<^verbatim>\<open>unexpected EOF\<close>.
\<close>

definition io_ReadFull :: "ByteBuf \<Rightarrow> nat \<Rightarrow> go_panic + ((string + byte list) \<times> ByteBuf)" where
  "io_ReadFull pb k =
     (if k = 0 then Inr (Inr [], pb)
      else
        (case Read pb (int k) of
           Inl e \<Rightarrow> Inl e
         | Inr (Inl err, pb1) \<Rightarrow> Inr (Inl err, pb1)
         | Inr (Inr bs, pb1) \<Rightarrow>
             if k \<le> length bs then Inr (Inr bs, pb1)
             else
               (case Read pb1 (int (k - length bs)) of
                  Inl e \<Rightarrow> Inl e
                | Inr (Inl err, pb2) \<Rightarrow> Inr (Inl ''unexpected EOF'', pb2)
                | Inr (Inr bs2, pb2) \<Rightarrow> Inr (Inr (bs @ bs2), pb2))))"

definition BigEndian_Uint16 :: "byte \<Rightarrow> byte \<Rightarrow> 16 word" where
  "BigEndian_Uint16 b0 b1 = ucast b1 OR push_bit 8 (ucast b0)"

text \<open>
  \<^verbatim>\<open>binary.Read(r, binary.BigEndian, &typeCode)\<close> with \<^verbatim>\<open>typeCode\<close> a zero
  \<^verbatim>\<open>uint16\<close>: on an error the variable keeps its value 0 (the decoder ignores the error).
\<close>

definition binary_Read_uint16 :: "ByteBuf \<Rightarrow> go_panic + (16 word \<times> ByteBuf)" where
  "binary_Read_uint16 r =
     (case io_ReadFull r 2 of
        Inl e \<Rightarrow> Inl e
      | Inr (Inr (b0 # b1 # _), r') \<Rightarrow> Inr (BigEndian_Uint16 b0 b1, r')
      | Inr (_, r') \<Rightarrow> Inr (0, r'))"

text \<open>
  \<^verbatim>\<open>ApolloConfig\<close>: the embedded \<^verbatim>\<open>TLVConfig\<close> and the constructor table. A constructor
  \<^verbatim>\<open>func() ApolloEntity\<close> is a function from \<open>unit\<close>; its result \<open>None\<close> is the \<^verbatim>\<open>nil\<close>
  entity. A key without an entry yields the \<^verbatim>\<open>nil\<close> constructor, as a lookup in a Go map
  does (also in the \<^verbatim>\<open>nil\<close> map that \<^verbatim>\<open>initConfig\<close> replaces by an empty one).
\<close>

record 'e ApolloConfig =
  tlvConfig :: TLVConfig
  entityConstructors :: "16 word \<rightharpoonup> (unit \<Rightarrow> 'e option)"

definition createEntity :: "'e ApolloConfig \<Rightarrow> 16 word \<Rightarrow> 'e option" where
  "createEntity c typeCode =
     (case entityConstructors c typeCode of
        Some constructor \<Rightarrow> constructor ()
      | None \<Rightarrow> None)"

record 'e ApolloFrameDecoder =
  Config' :: "'e ApolloConfig"
  tlvDecoder :: "TLVFrameDecoder option"

definition NewApolloFrameDecoder :: "'e ApolloConfig \<Rightarrow> 'e ApolloFrameDecoder" where
  "NewApolloFrameDecoder config = \<lparr>Config' = config, tlvDecoder = None\<rparr>"

text \<open>
  \<^verbatim>\<open>initTLVDecoder\<close> creates the inner decoder on first use; the value is the decoder
  that \<^verbatim>\<open>d.tlvDecoder\<close> holds afterwards.
\<close>

definition initTLVDecoder :: "'e ApolloFrameDecoder \<Rightarrow> TLVFrameDecoder" where
  "initTLVDecoder d =
     (case tlvDecoder d of
        None \<Rightarrow> NewTLVFrameDecoder (tlvConfig (Config' d))
      | Some tlv \<Rightarrow> tlv)"

definition apolloDecodeFailure :: "cause \<Rightarrow> 'e decoded" where
  "apolloDecodeFailure cause = Failed (DecodeError ''ApolloFrameDecoder'' cause)"

text \<open>
  \<^verbatim>\<open>ApolloFrameDecoder.Decode\<close>. \<open>unmarshal\<close> stands for \<^verbatim>\<open>msgpack.Unmarshal\<close>: from the
  serialized bytes and the fresh entity it gives an error text or the filled entity.
\<close>

definition ApolloDecode ::
  "(byte list \<Rightarrow> 'e \<Rightarrow> string + 'e) \<Rightarrow> 'e ApolloFrameDecoder \<Rightarrow> ByteBuf \<Rightarrow>
     go_panic + ('e decoded \<times> 'e ApolloFrameDecoder \<times> ByteBuf)" where
  "ApolloDecode unmarshal d inb =
     (if ReadableBytes inb = 0 then Inr (Nothing, d, inb)
      else
        (case Decode (initTLVDecoder d) inb of
           Inl p \<Rightarrow> Inl p
         | Inr (Nothing, tlv', inb') \<Rightarrow> Inr (Nothing, d\<lparr>tlvDecoder := Some tlv'\<rparr>, inb')
         | Inr (Failed tlvErr, tlv', inb') \<Rightarrow>
             Inr (apolloDecodeFailure (ErrorText tlvErr), d\<lparr>tlvDecoder := Some tlv'\<rparr>, inb')
         | Inr (Decoded tlvPayload, tlv', inb') \<Rightarrow>
             (let d' = d\<lparr>tlvDecoder := Some tlv'\<rparr>
              in (case WriteBytes (NewElasticUnsafeByteBuf (int (length tlvPayload))) tlvPayload of
                    Inl p \<Rightarrow> Inl p
                  | Inr b1 \<Rightarrow>
                      if ReadableBytes b1 < 2
                      then Inr (apolloDecodeFailure (Msg ''illegal payload''), d', inb')
                      else
                        (case binary_Read_uint16 b1 of
                           Inl p \<Rightarrow> Inl p
                         | Inr (typeCode, b2) \<Rightarrow>
                             (case ReadBytes b2 (ReadableBytes b2) of
                                Inl p \<Rightarrow> Inl p
                              | Inr (serializedBytes, _) \<Rightarrow>
                                  (case createEntity (Config' d') typeCode of
                                     Some entity \<Rightarrow>
                                       (case unmarshal serializedBytes entity of
                                          Inl unmarshalErr \<Rightarrow>
                                            Inr (apolloDecodeFailure (Msg unmarshalErr), d', inb')
                                        | Inr entity' \<Rightarrow> Inr (Decoded entity', d', inb'))
                                   | None \<Rightarrow> Inr (Nothing, d', inb'))))))))"

text \<open>
  The typed decoder stands at a frame boundary: its inner decoder does not exist yet, or
  has the decoder's TLV configuration and nothing latched.
\<close>

definition at_frame_start :: "'e ApolloFrameDecoder \<Rightarrow> bool" where
  "at_frame_start d \<longleftrightarrow>
     (case tlvDecoder d of
        None \<Rightarrow> True
      | Some tlv \<Rightarrow> Config tlv = tlvConfig (Config' d) \<and> \<not> hasTag tlv \<and> \<not> hasLength tlv)"

text \<open>
  A configuration with one registered type code (1, whose constructor returns the entity
  \<open>0\<close>), and a frame whose payload starts with the unregistered type code 7.
\<close>

definition one_entity_config :: "nat ApolloConfig" where
  "one_entity_config =
     \<lparr>tlvConfig = hello_config, entityConstructors = [1 \<mapsto> (\<lambda>_. Some 0)]\<rparr>"

definition unknown_payload :: "byte list" where
  "unknown_payload = [0x00, 0x07, 0x2A]"

definition unknown_frame :: "byte list" where
  "unknown_frame = [0xAA, 0x00, 0x00, 0x00, 0x03] @ unknown_payload"

definition unknown_input :: ByteBuf where
  "unknown_input =
     \<lparr>buffer = unknown_frame, readIndex = 0, writeIndex = 8, capacity = 8\<rparr>"

section \<open>peer: the duplex pipeline\<close>

text \<open>
  A call that may block: it returns a value, panics, or waits for another goroutine.
  The methods of the pipeline run under \<^verbatim>\<open>stateMutex\<close>, one at a time, so each is a
  function on the pipeline.
\<close>

datatype 'a outcome = Returns 'a | Panics go_panic | Blocks

text \<open>A buffered Go channel: the queued values, the capacity, and whether it is closed.\<close>

record 'a chan =
  items :: "'a list"
  cap :: nat
  closed :: bool

definition make_chan :: "nat \<Rightarrow> 'a chan" where
  "make_chan n = \<lparr>items = [], cap = n, closed = False\<rparr>"

text \<open>
  \<^verbatim>\<open>ch <- v\<close> on a possibly \<^verbatim>\<open>nil\<close> channel value is only used behind a \<^verbatim>\<open>nil\<close> check;
  on a closed channel it panics, on a full one it waits for a receiver.
\<close>

definition chan_send :: "'a chan \<Rightarrow> 'a \<Rightarrow> 'a chan outcome" where
  "chan_send ch v =
     (if closed ch then Panics SendOnClosedChannel
      else if length (items ch) < cap ch then Returns (ch\<lparr>items := items ch @ [v]\<rparr>)
      else Blocks)"

text \<open>\<^verbatim>\<open>close(ch)\<close>; \<open>None\<close> is the \<^verbatim>\<open>nil\<close> channel.\<close>

definition chan_close :: "'a chan option \<Rightarrow> go_panic + 'a chan option" where
  "chan_close c =
     (case c of
        None \<Rightarrow> Inl CloseOfNilChannel
      | Some ch \<Rightarrow> if closed ch then Inl CloseOfClosedChannel else Inr (Some (ch\<lparr>closed := True\<rparr>)))"

definition dataChanSize :: nat where "dataChanSize = 10"
definition cmdChanSize :: nat where "cmdChanSize = 2"

datatype pipeline_state = stateNew | stateReady | stateRunning | stateShutdown

datatype go_error =
    PipelineClosed
  | NilConnError
  | NilDecoderError
  | NilEncoderError
  | NilHandlerError
  | CodecError codec_error
  | IOError string
  | AckTimeoutError

text \<open>
  A callback \<^verbatim>\<open>func(err error)\<close>: a function of the caller, known by a name of type
  \<open>'f\<close>, or the closure that \<^verbatim>\<open>Send\<close> builds around its result channel.
\<close>

datatype 'f callback = UserFunc 'f | SendResultFunc

record ('m, 'f) OutboundEntity =
  Data :: 'm
  Callback :: "'f callback option"

text \<open>
  \<^verbatim>\<open>duplexPipeline\<close>. Of the connection, the codec and the handler the lifecycle looks
  only at whether they are \<^verbatim>\<open>nil\<close> (\<open>True\<close>: set); of the three worker handles
  likewise. A channel field is \<open>None\<close> while it is \<^verbatim>\<open>nil\<close>.
\<close>

record ('m, 'f) duplexPipeline =
  encoder :: bool
  decoder :: bool
  handler :: bool
  conn :: bool
  channel :: bool
  state :: pipeline_state
  stateWaitGroup :: int
  inboundDataC :: "'m chan option"
  outboundDataC :: "('m, 'f) OutboundEntity chan option"
  inboundHandlerStopC :: "8 word chan option"
  outboundHandlerStopC :: "8 word chan option"
  connReadHandler :: bool
  inboundHandler :: bool
  outboundHandler :: bool

text \<open>The struct literal of \<^verbatim>\<open>InitPipeline\<close>: four fields set, the rest zero.\<close>

definition new_duplexPipeline :: "bool \<Rightarrow> bool \<Rightarrow> bool \<Rightarrow> bool \<Rightarrow> ('m, 'f) duplexPipeline" where
  "new_duplexPipeline c d e h =
     \<lparr>encoder = e, decoder = d, handler = h, conn = c, channel = False, state = stateNew,
      stateWaitGroup = 0, inboundDataC = None, outboundDataC = None,
      inboundHandlerStopC = None, outboundHandlerStopC = None,
      connReadHandler = False, inboundHandler = False, outboundHandler = False\<rparr>"

definition Init :: "('m, 'f) duplexPipeline \<Rightarrow> go_error option \<times> ('m, 'f) duplexPipeline" where
  "Init cp =
     (if state cp = stateNew then
        (if \<not> conn cp then (Some NilConnError, cp)
         else if \<not> decoder cp then (Some NilDecoderError, cp)
         else if \<not> encoder cp then (Some NilEncoderError, cp)
         else if \<not> handler cp then (Some NilHandlerError, cp)
         else (None, cp\<lparr>inboundDataC := Some (make_chan dataChanSize),
                         outboundDataC := Some (make_chan dataChanSize),
                         inboundHandlerStopC := Some (make_chan cmdChanSize),
                         outboundHandlerStopC := Some (make_chan cmdChanSize),
                         channel := True,
                         state := stateReady\<rparr>))
      else (None, cp))"

definition Start :: "('m, 'f) duplexPipeline \<Rightarrow> go_error option \<times> ('m, 'f) duplexPipeline" where
  "Start cp =
     (if state cp \<noteq> stateReady then (None, cp)
      else (None, cp\<lparr>connReadHandler := True, inboundHandler := True, outboundHandler := True,
                      state := stateRunning, stateWaitGroup := stateWaitGroup cp + 1\<rparr>))"

text \<open>
  \<^verbatim>\<open>Stop\<close>. \<open>workers_exit\<close> says whether the three \<^verbatim>\<open>Join\<close> calls return (the workers
  end); if they do not, \<^verbatim>\<open>Stop\<close> waits forever with the state unchanged.
\<close>

definition Stop :: "bool \<Rightarrow> ('m, 'f) duplexPipeline \<Rightarrow> ('m, 'f) duplexPipeline outcome" where
  "Stop workers_exit cp =
     (if state cp \<noteq> stateRunning then Returns cp
      else
        (case chan_close (inboundHandlerStopC cp) of
           Inl p \<Rightarrow> Panics p
         | Inr istop \<Rightarrow>
             (case chan_close (outboundHandlerStopC cp) of
                Inl p \<Rightarrow> Panics p
              | Inr ostop \<Rightarrow>
                  if \<not> workers_exit then Blocks
                  else
                    (case chan_close (inboundDataC cp) of
                       Inl p \<Rightarrow> Panics p
                     | Inr idata \<Rightarrow>
                         (case chan_close (outboundDataC cp) of
                            Inl p \<Rightarrow> Panics p
                          | Inr odata \<Rightarrow>
                              Returns (cp\<lparr>inboundHandlerStopC := istop,
                                          outboundHandlerStopC := ostop,
                                          inboundDataC := idata,
                                          outboundDataC := odata,
                                          state := stateShutdown,
                                          stateWaitGroup := stateWaitGroup cp - 1,
                                          connReadHandler := False,
                                          inboundHandler := False,
                                          outboundHandler := False\<rparr>))))))"

text \<open>
  \<^verbatim>\<open>SendFuture\<close>. The first component lists the callback invocations made during the
  call, each with the error passed (\<open>None\<close> for \<^verbatim>\<open>nil\<close>); they have happened also when
  the push then panics or blocks. \<open>msg = None\<close> is the \<^verbatim>\<open>nil\<close> message.
\<close>

definition SendFuture ::
  "('m, 'f) duplexPipeline \<Rightarrow> 'm option \<Rightarrow> 'f callback option \<Rightarrow>
     ('f callback \<times> go_error option) list \<times> ('m, 'f) duplexPipeline outcome" where
  "SendFuture cp msg callback =
     (case msg of
        None \<Rightarrow> ([], Returns cp)
      | Some m \<Rightarrow>
          (let calls =
                 (if state cp \<noteq> stateRunning
                  then (case callback of Some f \<Rightarrow> [(f, Some PipelineClosed)] | None \<Rightarrow> [])
                  else [])
           in (case outboundDataC cp of
                 None \<Rightarrow> (calls, Returns cp)
               | Some ch \<Rightarrow>
                   (calls,
                    (case chan_send ch \<lparr>Data = m, Callback = callback\<rparr> of
                       Returns ch' \<Rightarrow> Returns (cp\<lparr>outboundDataC := Some ch'\<rparr>)
                     | Panics p \<Rightarrow> Panics p
                     | Blocks \<Rightarrow> Blocks)))))"

text \<open>
  \<^verbatim>\<open>Send\<close>: the result channel \<^verbatim>\<open>sendResultChan\<close> is known to the closure only, and
  the closure is known to \<^verbatim>\<open>SendFuture\<close> only. After \<^verbatim>\<open>SendFuture\<close> has returned, the
  receive \<^verbatim>\<open><-sendResultChan\<close> finds the error of a call already made; or the closure sits
  in the entry just pushed and the receive waits for the outbound worker; or the closure
  was dropped, and then no goroutine can ever send on the channel.
\<close>

datatype send_result =
    SendReturns "go_error option"
  | SendAwaitsOutbound
  | SendBlocksForever
  | SendBlocksOnQueue
  | SendPanics go_panic

definition Send :: "('m, 'f) duplexPipeline \<Rightarrow> 'm option \<Rightarrow> send_result" where
  "Send cp msg =
     (case SendFuture cp msg (Some SendResultFunc) of
        (_, Panics p) \<Rightarrow> SendPanics p
      | (_, Blocks) \<Rightarrow> SendBlocksOnQueue
      | (calls, Returns cp') \<Rightarrow>
          (case filter (\<lambda>(f, err). f = SendResultFunc) calls of
             (_, err) # _ \<Rightarrow> SendReturns err
           | [] \<Rightarrow>
               if outboundDataC cp' \<noteq> outboundDataC cp then SendAwaitsOutbound
               else SendBlocksForever))"

text \<open>
  One round of \<^verbatim>\<open>handleOutbound\<close> that takes the data case of the \<^verbatim>\<open>select\<close>:
  \<open>encode\<close> is \<^verbatim>\<open>cp.encoder.Encode\<close> and \<open>writeErr\<close> the error that \<^verbatim>\<open>cp.conn.Write\<close>
  returns. The value lists the errors given to \<^verbatim>\<open>handler.ChannelError\<close> and the callback
  invocations; \<open>None\<close> when the queue holds no entry.
\<close>

definition handleOutbound_round ::
  "('m \<Rightarrow> codec_error + byte list) \<Rightarrow> go_error option \<Rightarrow> ('m, 'f) duplexPipeline \<Rightarrow>
     (go_error list \<times> ('f callback \<times> go_error option) list \<times> ('m, 'f) duplexPipeline) option" where
  "handleOutbound_round encode writeErr cp =
     (case outboundDataC cp of
        None \<Rightarrow> None
      | Some ch \<Rightarrow>
          (case items ch of
             [] \<Rightarrow> None
           | outboundData # rest \<Rightarrow>
               (let cp' = cp\<lparr>outboundDataC := Some (ch\<lparr>items := rest\<rparr>)\<rparr>
                in (case encode (Data outboundData) of
                      Inl encodeErr \<Rightarrow>
                        Some ([CodecError encodeErr],
                              (case Callback outboundData of
                                 Some f \<Rightarrow> [(f, Some (CodecError encodeErr))]
                               | None \<Rightarrow> []),
                              cp')
                    | Inr encodeResult \<Rightarrow>
                        Some ([],
                              (case Callback outboundData of
                                 Some f \<Rightarrow> [(f, writeErr)]
                               | None \<Rightarrow> []),
                              cp')))))"

text \<open>A sequence of lifecycle calls, and the states a pipeline goes through under it.\<close>

datatype lifecycle_call = CallInit | CallStart | CallStop bool

definition lifecycle_step ::
  "lifecycle_call \<Rightarrow> ('m, 'f) duplexPipeline \<Rightarrow> ('m, 'f) duplexPipeline outcome" where
  "lifecycle_step call cp =
     (case call of
        CallInit \<Rightarrow> Returns (snd (Init cp))
      | CallStart \<Rightarrow> Returns (snd (Start cp))
      | CallStop workers_exit \<Rightarrow> Stop workers_exit cp)"

fun state_trace :: "('m, 'f) duplexPipeline \<Rightarrow> lifecycle_call list \<Rightarrow> pipeline_state list" where
  "state_trace cp [] = [state cp]"
| "state_trace cp (call # calls) =
     state cp # (case lifecycle_step call cp of Returns cp' \<Rightarrow> state_trace cp' calls | _ \<Rightarrow> [])"

fun state_changes :: "pipeline_state list \<Rightarrow> (pipeline_state \<times> pipeline_state) list" where
  "state_changes (a # b # rest) =
     (if a = b then state_changes (b # rest) else (a, b) # state_changes (b # rest))"
| "state_changes _ = []"

definition lifecycle_edges :: "(pipeline_state \<times> pipeline_state) list" where
  "lifecycle_edges =
     [(stateNew, stateReady), (stateReady, stateRunning), (stateRunning, stateShutdown)]"

text \<open>
  What \<^verbatim>\<open>Init\<close> establishes and \<^verbatim>\<open>Stop\<close> relies on: a pipeline that is ready or
  running has its four channels, and they are open.
\<close>

definition open_chan :: "'a chan option \<Rightarrow> bool" where
  "open_chan c = (case c of None \<Rightarrow> False | Some ch \<Rightarrow> \<not> closed ch)"

definition pipeline_inv :: "('m, 'f) duplexPipeline \<Rightarrow> bool" where
  "pipeline_inv cp \<longleftrightarrow>
     (state cp = stateReady \<or> state cp = stateRunning \<longrightarrow>
        open_chan (inboundDataC cp) \<and> open_chan (outboundDataC cp) \<and>
        open_chan (inboundHandlerStopC cp) \<and> open_chan (outboundHandlerStopC cp))"

text \<open>Where each state can still go along the lifecycle.\<close>

fun edges_from :: "pipeline_state \<Rightarrow> (pipeline_state \<times> pipeline_state) list" where
  "edges_from stateNew =
     [(stateNew, stateReady), (stateReady, stateRunning), (stateRunning, stateShutdown)]"
| "edges_from stateReady = [(stateReady, stateRunning), (stateRunning, stateShutdown)]"
| "edges_from stateRunning = [(stateRunning, stateShutdown)]"
| "edges_from stateShutdown = []"

text \<open>A pipeline with everything set, as \<^verbatim>\<open>InitPipeline\<close> builds it before \<^verbatim>\<open>Init\<close>.\<close>

definition fresh_pipeline :: "(nat, nat) duplexPipeline" where
  "fresh_pipeline = new_duplexPipeline True True True True"

definition lifecycle_script :: "lifecycle_call list" where
  "lifecycle_script =
     [CallInit, CallInit, CallStart, CallStop True, CallStart, CallInit, CallStop True]"

text \<open>The same pipeline after \<^verbatim>\<open>Init\<close>, and with one outbound entry queued.\<close>

definition ready_pipeline :: "(nat, nat) duplexPipeline" where
  "ready_pipeline = snd (Init fresh_pipeline)"

definition queued_pipeline :: "(nat, nat) duplexPipeline" where
  "queued_pipeline =
     ready_pipeline\<lparr>outboundDataC :=
       Some \<lparr>items = [\<lparr>Data = 5, Callback = Some (UserFunc 1)\<rparr>], cap = 10, closed = False\<rparr>\<rparr>"

text \<open>The pipeline after \<^verbatim>\<open>Init\<close>, \<^verbatim>\<open>Start\<close> and \<^verbatim>\<open>Stop\<close>.\<close>

definition shutdown_pipeline :: "(nat, nat) duplexPipeline" where
  "shutdown_pipeline =
     (case Stop True (snd (Start ready_pipeline)) of Returns cp \<Rightarrow> cp | _ \<Rightarrow> ready_pipeline)"

section \<open>peer: SafeAckManager\<close>

record 'v ackRespEntity =
  data :: "'v option"
  err :: "go_error option"

text \<open>
  The manager is its \<^verbatim>\<open>sync.Map\<close> from keys to response channels. A key argument is an
  \<^verbatim>\<open>interface{}\<close>: \<open>None\<close> is \<^verbatim>\<open>nil\<close>, \<open>Some k\<close> a comparable value. A value \<open>data\<close> is
  an \<^verbatim>\<open>interface{}\<close> as well.
\<close>

type_synonym ('k, 'v) SafeAckManager = "'k \<rightharpoonup> 'v ackRespEntity chan"

definition InitAck :: "('k, 'v) SafeAckManager \<Rightarrow> 'k option \<Rightarrow> ('k, 'v) SafeAckManager" where
  "InitAck m key =
     (case key of
        None \<Rightarrow> m
      | Some k \<Rightarrow> (case m k of None \<Rightarrow> m(k \<mapsto> make_chan 2) | Some _ \<Rightarrow> m))"

definition CommitAck ::
  "('k, 'v) SafeAckManager \<Rightarrow> 'k option \<Rightarrow> 'v option \<Rightarrow> ('k, 'v) SafeAckManager outcome" where
  "CommitAck m key d =
     (case key of
        None \<Rightarrow> Returns m
      | Some k \<Rightarrow>
          (case m k of
             None \<Rightarrow> Returns m
           | Some ackRespChan \<Rightarrow>
               (case chan_send ackRespChan \<lparr>data = d, err = None\<rparr> of
                  Returns ch' \<Rightarrow> Returns (m(k \<mapsto> ch'))
                | Panics p \<Rightarrow> Panics p
                | Blocks \<Rightarrow> Blocks)))"

text \<open>
  \<^verbatim>\<open>WaitAck\<close>, called while no other goroutine acts on the manager. A timer exists only
  for \<open>timeout > 0\<close>. When the channel holds a response the \<^verbatim>\<open>select\<close> takes it, unless the
  timer has fired already and the \<^verbatim>\<open>select\<close> picks the timer (\<open>timer_wins\<close>: both cases
  are ready then and Go chooses one of them). With an empty channel the timer fires if
  there is one; without a timer the call waits for a commit. The deferred \<^verbatim>\<open>Delete\<close>
  removes the slot on each return.
\<close>

definition WaitAck ::
  "('k, 'v) SafeAckManager \<Rightarrow> 'k option \<Rightarrow> int \<Rightarrow> bool \<Rightarrow>
     (('v option \<times> go_error option) \<times> ('k, 'v) SafeAckManager) outcome" where
  "WaitAck m key timeout timer_wins =
     (case key of
        None \<Rightarrow> Returns ((None, None), m)
      | Some k \<Rightarrow>
          (case m k of
             None \<Rightarrow> Returns ((None, None), m)
           | Some ackRespChan \<Rightarrow>
               (case items ackRespChan of
                  respEntity # _ \<Rightarrow>
                    if timeout > 0 \<and> timer_wins
                    then Returns ((None, Some AckTimeoutError), m(k := None))
                    else Returns ((data respEntity, err respEntity), m(k := None))
                | [] \<Rightarrow>
                    if timeout > 0
                    then Returns ((None, Some AckTimeoutError), m(k := None))
                    else Blocks)))"

text \<open>The three calls of C7 in a row.\<close>

definition init_commit_wait ::
  "('k, 'v) SafeAckManager \<Rightarrow> 'k option \<Rightarrow> 'v option \<Rightarrow> int \<Rightarrow> bool \<Rightarrow>
     (('v option \<times> go_error option) \<times> ('k, 'v) SafeAckManager) outcome" where
  "init_commit_wait m key v timeout timer_wins =
     (case CommitAck (InitAck m key) key v of
        Returns m' \<Rightarrow> WaitAck m' key timeout timer_wins
      | Panics p \<Rightarrow> Panics p
      | Blocks \<Rightarrow> Blocks)"

text \<open>A manager in which an earlier commit for key 7 was never waited for.\<close>

definition stale_manager :: "(nat, nat) SafeAckManager" where
  "stale_manager = [7 \<mapsto> \<lparr>items = [\<lparr>data = Some 1, err = None\<rparr>], cap = 2, closed = False\<rparr>]"

section \<open>Properties of the growth policy\<close>

lemma f32_shift_bound: "f32_shift n = Suc k \<Longrightarrow> 2 ^ 24 * 2 ^ k \<le> n"
proof (induction n arbitrary: k rule: f32_shift.induct)
  case (1 n)
  from "1.prems" have big: "\<not> n < 2 ^ 24" and k: "f32_shift (n div 2) = k"
    by (auto simp: f32_shift.simps [of n] split: if_splits)
  show ?case
  proof (cases k)
    case 0
    with big show ?thesis by simp
  next
    case (Suc j)
    with "1.IH" [OF big] k have "2 ^ 24 * 2 ^ j \<le> n div 2" by simp
    then have "2 * (2 ^ 24 * 2 ^ j) \<le> n" by linarith
    with Suc show ?thesis by (simp add: mult.assoc)
  qed
qed

lemma round24_lower: "n * (2 ^ 23 - 1) \<le> round24 n * 2 ^ 23"
proof (cases "f32_shift n")
  case 0
  then show ?thesis by (simp add: round24_def)
next
  case (Suc k)
  define sh where "sh = Suc k"
  define R where "R = round24 n"
  define d :: nat where "d = 2 ^ sh"
  have n: "2 ^ 24 * 2 ^ k \<le> n" by (rule f32_shift_bound [OF Suc])
  have r: "n mod d < d" by (simp add: d_def)
  have "(n div d) * d \<le> R"
    using Suc by (simp add: round24_def Let_def sh_def R_def d_def)
  moreover have "n = (n div d) * d + n mod d" by (metis div_mult_mod_eq)
  ultimately have 1: "n \<le> R + d" using r by linarith
  have 2: "d * 2 ^ 23 \<le> n" using n by (simp add: d_def sh_def)
  have "n * 2 ^ 23 \<le> (R + d) * 2 ^ 23" using 1 by (rule mult_le_mono1)
  also have "\<dots> = R * 2 ^ 23 + d * 2 ^ 23" by (rule add_mult_distrib)
  also have "\<dots> \<le> R * 2 ^ 23 + n" using 2 by simp
  finally have "n * 2 ^ 23 \<le> R * 2 ^ 23 + n" .
  then show ?thesis unfolding R_def by (simp add: diff_mult_distrib2)
qed

text \<open>The reallocated buffer always has room for the bytes it was grown for.\<close>

lemma growF32_ge: "n \<le> growF32 n"
proof -
  define a where "a = round24 n"
  define b where "b = round24 (a * 10066330)"
  have a: "n * 8388607 \<le> a * 8388608" using round24_lower [of n] by (simp add: a_def)
  have b: "(a * 10066330) * 8388607 \<le> b * 8388608"
    using round24_lower [of "a * 10066330"] by (simp add: b_def)
  have "n * 8388608 \<le> b" using a b by linarith
  then have "n \<le> b div 2 ^ 23"
    by (simp add: less_eq_div_iff_mult_less_eq)
  then show ?thesis by (simp add: growF32_def a_def b_def)
qed

lemma newSizeF32_ge: "0 \<le> x \<Longrightarrow> x \<le> newSizeF32 x"
  using growF32_ge [of "nat x"] by (simp add: newSizeF32_def)

section \<open>Properties of the byte buffer\<close>

lemma replicate_numeral: "replicate (numeral k) x = x # replicate (pred_numeral k) x"
  by (simp add: numeral_eq_Suc)

lemma go_copy_length [simp]: "length (go_copy dst src) = length dst"
  by (simp add: go_copy_def)

lemma go_copy_fits: "length src \<le> length dst \<Longrightarrow> go_copy dst src = src @ drop (length src) dst"
  by (simp add: go_copy_def)

lemma go_copy_grow: "length src \<le> n \<Longrightarrow> go_copy (replicate n 0) src = src @ replicate (n - length src) 0"
  by (simp add: go_copy_def)

lemma go_slice_ok:
  "0 \<le> lo \<Longrightarrow> lo \<le> hi \<Longrightarrow> hi \<le> int (length s) \<Longrightarrow>
     go_slice s lo hi = Inr (take (nat hi - nat lo) (drop (nat lo) s))"
  by (simp add: go_slice_def)

lemma nat_int_diff [simp]: "nat (int a - int b) = a - b"
  by arith

lemma readable_nat:
  "readIndex pb = int rn \<Longrightarrow> writeIndex pb = int wn \<Longrightarrow>
     readable pb = take (wn - rn) (drop rn (buffer pb))"
proof -
  have "nat (int wn - int rn) = wn - rn" by arith
  then show "readIndex pb = int rn \<Longrightarrow> writeIndex pb = int wn \<Longrightarrow>
     readable pb = take (wn - rn) (drop rn (buffer pb))"
    by (simp add: readable_def)
qed

lemma wf_buf_nat:
  assumes "wf_buf pb"
  obtains rn wn where "readIndex pb = int rn" "writeIndex pb = int wn" "rn \<le> wn"
    "wn \<le> length (buffer pb)" "capacity pb = int (length (buffer pb))"
proof -
  from assms have "readIndex pb = int (nat (readIndex pb))" "writeIndex pb = int (nat (writeIndex pb))"
    "nat (readIndex pb) \<le> nat (writeIndex pb)" "nat (writeIndex pb) \<le> length (buffer pb)"
    "capacity pb = int (length (buffer pb))"
    by (auto simp: wf_buf_def)
  then show thesis by (rule that)
qed

lemma take_two_appends: "length xs = k \<Longrightarrow> take (k + length ys) (xs @ ys @ zs) = xs @ ys"
  by simp

lemma write_region:
  assumes "rn \<le> wn" "wn + length bs \<le> length B"
  shows "take (wn + length bs - rn) (drop rn (take wn B @ go_copy (drop wn B) bs))
           = take (wn - rn) (drop rn B) @ bs"
proof -
  define X where "X = drop rn (take wn B)"
  define rest where "rest = drop (length bs) (drop wn B)"
  have c: "go_copy (drop wn B) bs = bs @ rest"
    unfolding rest_def using assms by (intro go_copy_fits) simp
  have d: "drop rn (take wn B @ bs @ rest) = X @ bs @ rest"
    using assms by (simp add: X_def)
  have l: "length X = wn - rn" using assms by (simp add: X_def)
  have x: "X = take (wn - rn) (drop rn B)" by (simp add: X_def drop_take)
  have e: "wn + length bs - rn = (wn - rn) + length bs" using assms by arith
  have "take (wn + length bs - rn) (drop rn (take wn B @ go_copy (drop wn B) bs))
          = take ((wn - rn) + length bs) (X @ bs @ rest)"
    by (simp only: c d e)
  also have "\<dots> = X @ bs" using l by (rule take_two_appends)
  finally show ?thesis by (simp only: x)
qed

text \<open>Writing into a buffer that has room.\<close>

lemma write_into:
  assumes "readIndex pb = int rn" "writeIndex pb = int wn" "rn \<le> wn"
    "wn + length bs \<le> length (buffer pb)" "capacity pb = int (length (buffer pb))"
  defines "pb' \<equiv> pb\<lparr>buffer := take (nat (writeIndex pb)) (buffer pb) @
                           go_copy (drop wn (buffer pb)) bs,
                      writeIndex := writeIndex pb + int (length bs)\<rparr>"
  shows "wf_buf pb' \<and> readable pb' = readable pb @ bs"
proof -
  have r: "readIndex pb' = int rn" and w: "writeIndex pb' = int (wn + length bs)"
    using assms by (simp_all add: pb'_def)
  have b: "buffer pb' = take wn (buffer pb) @ go_copy (drop wn (buffer pb)) bs"
    using assms by (simp add: pb'_def)
  have len: "length (buffer pb') = length (buffer pb)" using assms by (simp add: b)
  have "wf_buf pb'" using assms r w len by (simp add: wf_buf_def pb'_def)
  moreover have "readable pb' = readable pb @ bs"
  proof -
    have "readable pb' = take (wn + length bs - rn) (drop rn (buffer pb'))"
      by (rule readable_nat [OF r w])
    also have "\<dots> = take (wn - rn) (drop rn (buffer pb)) @ bs"
      unfolding b using assms(3,4) by (rule write_region)
    also have "\<dots> = readable pb @ bs"
      by (simp only: readable_nat [OF assms(1,2)])
    finally show ?thesis .
  qed
  ultimately show ?thesis by simp
qed

lemma WriteBytes_wf:
  assumes "wf_buf pb"
  shows "\<exists>pb'. WriteBytes pb bs = Inr pb' \<and> wf_buf pb' \<and> readable pb' = readable pb @ bs \<and>
           readIndex pb' = readIndex pb \<and> writeIndex pb' = writeIndex pb + int (length bs)"
proof (cases "bs = []")
  case True
  with assms show ?thesis by (simp add: WriteBytes_def)
next
  case False
  from assms obtain rn wn where nat: "readIndex pb = int rn" "writeIndex pb = int wn" "rn \<le> wn"
    "wn \<le> length (buffer pb)" "capacity pb = int (length (buffer pb))"
    by (rule wf_buf_nat)
  show ?thesis
  proof (cases "calcWritableBytes pb < int (length bs)")
    case True
    define N where "N = growF32 (length bs + wn)"
    define pb1 where "pb1 = pb\<lparr>buffer := go_copy (replicate N 0) (buffer pb), capacity := int N\<rparr>"
    have N: "length bs + wn \<le> N" by (simp add: N_def growF32_ge)
    have ns: "newSizeF32 (int (length bs) + writeIndex pb) = int N"
      using nat by (simp add: newSizeF32_def N_def nat_add_distrib)
    have lenB: "length (buffer pb) \<le> N" using True nat N by (simp add: calcWritableBytes_def)
    have b1: "buffer pb1 = buffer pb @ replicate (N - length (buffer pb)) 0"
      using lenB by (simp add: pb1_def go_copy_grow)
    have pre0: "readIndex pb1 = int rn" "writeIndex pb1 = int wn"
      using nat by (simp_all add: pb1_def)
    have "readable pb1 = take (wn - rn) (drop rn (buffer pb1))"
      by (rule readable_nat [OF pre0])
    also have "\<dots> = take (wn - rn) (drop rn (buffer pb))"
      unfolding b1 using nat(3,4) by simp
    also have "\<dots> = readable pb"
      by (simp only: readable_nat [OF nat(1,2)])
    finally have rd1: "readable pb1 = readable pb" .
    have pre: "readIndex pb1 = int rn" "writeIndex pb1 = int wn"
      "wn + length bs \<le> length (buffer pb1)" "capacity pb1 = int (length (buffer pb1))"
      using nat N lenB by (simp_all add: pb1_def)
    have sl: "go_slice (buffer pb1) (writeIndex pb1) (int (length (buffer pb1)))
               = Inr (drop wn (buffer pb1))"
      using pre by (simp add: go_slice_def)
    have eq: "WriteBytes pb bs = Inr (pb1\<lparr>buffer := take (nat (writeIndex pb1)) (buffer pb1) @
                           go_copy (drop wn (buffer pb1)) bs,
                      writeIndex := writeIndex pb1 + int (length bs)\<rparr>)"
      using False True sl ns
      by (simp add: WriteBytes_def Let_def go_make_def pb1_def [symmetric])
    show ?thesis
      using write_into [OF pre(1,2) nat(3) pre(3,4), of ] rd1 pre nat
      by (simp add: eq)
  next
    case no: False
    have pre: "wn + length bs \<le> length (buffer pb)"
      using no nat by (simp add: calcWritableBytes_def)
    have sl: "go_slice (buffer pb) (writeIndex pb) (int (length (buffer pb)))
               = Inr (drop wn (buffer pb))"
      using nat by (simp add: go_slice_def)
    have eq: "WriteBytes pb bs = Inr (pb\<lparr>buffer := take (nat (writeIndex pb)) (buffer pb) @
                           go_copy (drop wn (buffer pb)) bs,
                      writeIndex := writeIndex pb + int (length bs)\<rparr>)"
      using False no sl by (simp add: WriteBytes_def Let_def)
    show ?thesis
      using write_into [OF nat(1,2,3) pre nat(5)] nat
      by (simp add: eq)
  qed
qed


lemma idx_nat:
  assumes "0 \<le> readIndex pb" "readIndex pb \<le> writeIndex pb"
    "writeIndex pb \<le> int (length (buffer pb))"
  obtains rn wn where "readIndex pb = int rn" "writeIndex pb = int wn" "rn \<le> wn"
    "wn \<le> length (buffer pb)"
proof -
  from assms have "readIndex pb = int (nat (readIndex pb))" "writeIndex pb = int (nat (writeIndex pb))"
    "nat (readIndex pb) \<le> nat (writeIndex pb)" "nat (writeIndex pb) \<le> length (buffer pb)"
    by auto
  then show thesis by (rule that)
qed

lemma ReadBytes_general:
  assumes "0 \<le> readIndex pb" "readIndex pb \<le> writeIndex pb"
    "writeIndex pb \<le> int (length (buffer pb))" "0 \<le> n"
  shows "ReadBytes pb n =
           Inr (take (nat n) (readable pb) @ replicate (nat n - nat (writeIndex pb - readIndex pb)) 0,
                pb\<lparr>readIndex := readIndex pb + min n (writeIndex pb - readIndex pb)\<rparr>)"
proof -
  from assms(1-3) obtain rn wn where nat: "readIndex pb = int rn" "writeIndex pb = int wn"
    "rn \<le> wn" "wn \<le> length (buffer pb)"
    by (rule idx_nat)
  define k where "k = nat n"
  have n: "n = int k" using assms(4) by (simp add: k_def)
  have rd: "readable pb = take (wn - rn) (drop rn (buffer pb))"
    by (rule readable_nat [OF nat(1,2)])
  have lrd: "length (readable pb) = wn - rn" using nat by (simp add: rd)
  have wr: "nat (writeIndex pb - readIndex pb) = wn - rn" using nat by (simp add: nat_diff_distrib)
  show ?thesis
  proof (cases "rn + k \<le> wn")
    case True
    have sl: "go_slice (buffer pb) (int rn) (int rn + int k) = Inr (take k (drop rn (buffer pb)))"
      using True nat by (simp add: go_slice_def nat_add_distrib)
    have t: "take k (readable pb) = take k (drop rn (buffer pb))"
      using True by (simp add: rd min_def)
    have l: "length (take k (drop rn (buffer pb))) = k" using True nat by simp
    have z: "k - (wn - rn) = 0" using True by simp
    have c: "go_copy (replicate k 0) (take k (drop rn (buffer pb))) = take k (readable pb)"
      using l by (simp add: go_copy_def t)
    have m: "min (int k) (int wn - int rn) = int k" using True by simp
    show ?thesis
      using True sl c
      by (simp add: ReadBytes_def go_make_def Let_def nat n wr z m)
  next
    case False
    have sl: "go_slice (buffer pb) (int rn) (int wn) = Inr (readable pb)"
      using nat by (simp add: go_slice_def rd)
    have t: "take k (readable pb) = readable pb" using False lrd by simp
    have c: "go_copy (replicate k 0) (readable pb) = readable pb @ replicate (k - (wn - rn)) 0"
      using False lrd by (simp add: go_copy_def)
    have m: "min (int k) (int wn - int rn) = int wn - int rn" using False by simp
    show ?thesis
      using False sl c
      by (simp add: ReadBytes_def go_make_def Let_def nat n wr t m)
  qed
qed

lemma ReadBytes_negative: "n < 0 \<Longrightarrow> ReadBytes pb n = Inr ([], pb)"
  by (simp add: ReadBytes_def)

lemma ReadBytes_wf:
  assumes "wf_buf pb" "0 \<le> n" "n \<le> ReadableBytes pb"
  shows "\<exists>pb'. ReadBytes pb n = Inr (take (nat n) (readable pb), pb') \<and> wf_buf pb' \<and>
           readable pb' = drop (nat n) (readable pb) \<and> length (take (nat n) (readable pb)) = nat n"
proof -
  from assms(1) obtain rn wn where nat: "readIndex pb = int rn" "writeIndex pb = int wn"
    "rn \<le> wn" "wn \<le> length (buffer pb)" "capacity pb = int (length (buffer pb))"
    by (rule wf_buf_nat)
  define k where "k = nat n"
  have n: "n = int k" using assms(2) by (simp add: k_def)
  have kle: "rn + k \<le> wn" using assms(3) nat n by (simp add: ReadableBytes_def calcReadableBytes_def)
  define pb' where "pb' = pb\<lparr>readIndex := int (rn + k)\<rparr>"
  have g: "ReadBytes pb n =
           Inr (take (nat n) (readable pb) @ replicate (nat n - nat (writeIndex pb - readIndex pb)) 0,
                pb\<lparr>readIndex := readIndex pb + min n (writeIndex pb - readIndex pb)\<rparr>)"
    using assms by (intro ReadBytes_general) (simp_all add: wf_buf_def)
  have z: "nat n - nat (writeIndex pb - readIndex pb) = 0" using kle nat n by simp
  have m: "readIndex pb + min n (writeIndex pb - readIndex pb) = int (rn + k)"
    using kle nat n by simp
  have eq: "ReadBytes pb n = Inr (take (nat n) (readable pb), pb')"
    by (simp add: g z m pb'_def)
  have r': "readIndex pb' = int (rn + k)" "writeIndex pb' = int wn" "buffer pb' = buffer pb"
    using nat by (simp_all add: pb'_def)
  have wf': "wf_buf pb'" using nat kle by (simp add: wf_buf_def pb'_def)
  have "readable pb' = take (wn - (rn + k)) (drop (rn + k) (buffer pb))"
    using readable_nat [OF r'(1,2)] r'(3) by simp
  also have "\<dots> = drop k (take (wn - rn) (drop rn (buffer pb)))"
    by (simp add: drop_take add.commute)
  also have "\<dots> = drop k (readable pb)" by (simp only: readable_nat [OF nat(1,2)])
  finally have rd': "readable pb' = drop (nat n) (readable pb)" by (simp add: k_def)
  have "length (readable pb) = wn - rn" using nat by (simp add: readable_nat [OF nat(1,2)])
  then have "length (take (nat n) (readable pb)) = nat n" using kle by (simp add: k_def)
  with eq wf' rd' show ?thesis by blast
qed

lemma Release_wf:
  assumes "wf_buf pb"
  shows "\<exists>pb'. Release pb = Inr pb' \<and> readable pb' = readable pb \<and> readIndex pb' = 0 \<and>
           writeIndex pb' = writeIndex pb - readIndex pb \<and>
           take (nat (writeIndex pb')) (buffer pb') = readable pb \<and>
           int (length (buffer pb')) = capacity pb - readIndex pb \<and>
           capacity pb' = capacity pb"
proof -
  from assms obtain rn wn where nat: "readIndex pb = int rn" "writeIndex pb = int wn"
    "rn \<le> wn" "wn \<le> length (buffer pb)" "capacity pb = int (length (buffer pb))"
    by (rule wf_buf_nat)
  have rd: "readable pb = take (wn - rn) (drop rn (buffer pb))"
    by (rule readable_nat [OF nat(1,2)])
  have lrd: "length (readable pb) = wn - rn" using nat by (simp add: rd)
  have sl: "go_slice (buffer pb) (int rn) (int wn) = Inr (readable pb)"
    using nat by (simp add: go_slice_def rd)
  have mk: "go_make (int (length (buffer pb)) - int rn) = Inr (replicate (length (buffer pb) - rn) 0)"
    using nat by (simp add: go_make_def nat_diff_distrib)
  define nb where "nb = go_copy (replicate (length (buffer pb) - rn) 0) (readable pb)"
  have nb: "nb = readable pb @ replicate (length (buffer pb) - rn - (wn - rn)) 0"
    unfolding nb_def using lrd nat by (intro go_copy_grow [THEN trans]) simp_all
  have eq: "Release pb = Inr (pb\<lparr>buffer := nb, writeIndex := int (wn - rn), readIndex := 0\<rparr>)"
    using nat by (simp add: Release_def mk sl nb_def of_nat_diff)
  have t: "take (wn - rn) nb = readable pb" using lrd by (simp add: nb)
  have l: "int (length nb) = int (length (buffer pb)) - int rn"
    using nat by (simp add: nb_def of_nat_diff)
  show ?thesis
    using t l nat by (simp add: eq readable_def of_nat_diff)
qed


text \<open>
  C2 (as amended). In a buffer whose indexes satisfy \<open>0 \<le> r \<le> w \<le> len(buffer)\<close>,
  \<^verbatim>\<open>ReadBytes(n)\<close> with \<open>n \<ge> 0\<close> returns exactly \<open>n\<close> bytes: the next
  \<open>min(n, w - r)\<close> unread bytes followed by zero bytes up to length \<open>n\<close>, and advances
  \<open>r\<close> by \<open>min(n, w - r)\<close>. With \<open>n < 0\<close> it returns the empty slice and leaves the
  buffer unchanged; with \<open>n = 0\<close> it returns the empty slice without advancing \<open>r\<close>.
\<close>

theorem ReadBytes_result:
  assumes "0 \<le> readIndex pb" and "readIndex pb \<le> writeIndex pb"
    and "writeIndex pb \<le> int (length (buffer pb))"
  shows "ReadBytes pb n =
           Inr (if n < 0 then []
                else take (nat n) (readable pb) @
                     replicate (nat n - nat (writeIndex pb - readIndex pb)) 0,
                pb\<lparr>readIndex := readIndex pb +
                       (if n < 0 then 0 else min n (writeIndex pb - readIndex pb))\<rparr>)"
proof (cases "n < 0")
  case True
  then show ?thesis by (simp add: ReadBytes_negative)
next
  case False
  then have "0 \<le> n" by simp
  from ReadBytes_general [OF assms this] False show ?thesis by simp
qed

theorem ReadBytes_result_witness:
  "ReadBytes three_unread 2 = Inr ([1, 2], three_unread\<lparr>readIndex := 2\<rparr>) \<and>
   ReadBytes three_unread 0 = Inr ([], three_unread) \<and>
   ReadBytes three_unread (- 1) = Inr ([], three_unread)"
  using ReadBytes_result [of three_unread 2] ReadBytes_result [of three_unread 0]
    ReadBytes_result [of three_unread "- 1"]
  by (simp add: three_unread_def readable_def)

text \<open>
  C2 as stated fails for a request beyond the readable bytes: with three unread bytes,
  \<^verbatim>\<open>ReadBytes(5)\<close> returns five bytes, more than \<open>min(5, 3)\<close>, and advances the read
  index by three, not by the five bytes returned.
\<close>

theorem ReadBytes_overread_counterexample:
  "ReadBytes three_unread 5 = Inr ([1, 2, 3, 0, 0], three_unread\<lparr>readIndex := 3\<rparr>) \<and>
   \<not> int (length [1, 2, 3, 0, 0 :: byte]) \<le> min 5 (writeIndex three_unread - readIndex three_unread) \<and>
   readIndex (three_unread\<lparr>readIndex := 3\<rparr>) - readIndex three_unread
     \<noteq> int (length [1, 2, 3, 0, 0 :: byte])"
  by (simp add: ReadBytes_def three_unread_def go_make_def go_slice_def go_copy_def
      replicate_numeral)

lemma ReadableBytes_readable: "wf_buf pb \<Longrightarrow> ReadableBytes pb = int (length (readable pb))"
  by (auto simp: wf_buf_def ReadableBytes_def calcReadableBytes_def readable_def)

text \<open>
  Without \<open>Release\<close> the buffer is a queue: every script of writes and in-range reads on
  a well-formed buffer returns what the reference queue returns.
\<close>

lemma apply_ops_fifo:
  "wf_buf pb \<Longrightarrow> OpRelease \<notin> set ops \<Longrightarrow> fifo_ops (readable pb) ops = Some rs \<Longrightarrow>
     \<exists>pb'. apply_ops pb ops = Inr (rs, pb') \<and> wf_buf pb'"
proof (induction ops arbitrary: pb rs)
  case Nil
  then show ?case by simp
next
  case (Cons op ops)
  show ?case
  proof (cases op)
    case (OpWriteBytes bs)
    from WriteBytes_wf [OF Cons.prems(1), of bs]
    obtain pb1 where 1: "WriteBytes pb bs = Inr pb1" "wf_buf pb1"
      "readable pb1 = readable pb @ bs" by blast
    from Cons.prems(2,3) OpWriteBytes 1(3)
    have "OpRelease \<notin> set ops" "fifo_ops (readable pb1) ops = Some rs" by simp_all
    from Cons.IH [OF 1(2) this] 1(1) OpWriteBytes show ?thesis by simp
  next
    case (OpReadBytes n)
    with Cons.prems(3) obtain rs' where n: "0 \<le> n" "n \<le> int (length (readable pb))"
      and rs': "fifo_ops (drop (nat n) (readable pb)) ops = Some rs'"
      and rs: "rs = take (nat n) (readable pb) # rs'"
      by (auto split: if_splits option.splits)
    have "n \<le> ReadableBytes pb" using n(2) Cons.prems(1) by (simp add: ReadableBytes_readable)
    from ReadBytes_wf [OF Cons.prems(1) n(1) this]
    obtain pb1 where 1: "ReadBytes pb n = Inr (take (nat n) (readable pb), pb1)" "wf_buf pb1"
      "readable pb1 = drop (nat n) (readable pb)" by blast
    from Cons.prems(2) OpReadBytes rs' 1(3)
    have "OpRelease \<notin> set ops" "fifo_ops (readable pb1) ops = Some rs'" by simp_all
    from Cons.IH [OF 1(2) this] 1(1) OpReadBytes rs show ?thesis by auto
  next
    case OpRelease
    with Cons.prems(2) show ?thesis by simp
  qed
qed

lemmas buf_eval = NewElasticUnsafeByteBuf_def WriteBytes_def ReadBytes_def Release_def
  calcWritableBytes_def go_make_def go_slice_def go_copy_def Let_def replicate_numeral
  newSizeF32_def growF32_def round24_def f32_shift.simps

text \<open>
  C1 at the failing input. On a buffer of capacity 4: write \<open>[1,2]\<close>, read 2, release,
  write \<open>[3,4,5]\<close>, write \<open>[6,7]\<close>, read 5. The bytes written and not yet read are
  \<open>[3,4,5,6,7]\<close> (what the reference queue returns), but the read returns \<open>[3,4,0,6,7]\<close>:
  \<open>Release\<close> shrank the backing slice to 2 bytes and left \<open>capacity\<close> at 4, so the write
  of \<open>[3,4,5]\<close> saw room for 4 bytes and \<^verbatim>\<open>copy\<close> stored only 2. Without the second write
  the read panics with a slice index out of range.
\<close>

theorem Release_then_write_loses_bytes:
  "fifo_ops [] lossy_script = Some [ [1, 2], [3, 4, 5, 6, 7]] \<and>
   apply_ops (NewElasticUnsafeByteBuf 4) lossy_script =
     Inr ([ [1, 2], [3, 4, 0, 6, 7]],
          \<lparr>buffer = [3, 4, 0, 6, 7, 0], readIndex = 5, writeIndex = 5, capacity = 6\<rparr>) \<and>
   fifo_ops [] panic_script = Some [ [1, 2], [3, 4, 5]] \<and>
   apply_ops (NewElasticUnsafeByteBuf 4) panic_script = Inl SliceBoundsOutOfRange"
  by (simp add: lossy_script_def panic_script_def buf_eval)

section \<open>Properties of the TLV encoder\<close>

lemma BigEndian_roundtrip:
  "BigEndian_Uint32 (ucast (drop_bit 24 v)) (ucast (drop_bit 16 v)) (ucast (drop_bit 8 v)) (ucast v) = v"
proof (rule bit_word_eqI)
  fix n assume n: "n < LENGTH(32)"
  consider "n < 8" | "8 \<le> n" "n < 16" | "16 \<le> n" "n < 24" | "24 \<le> n" by linarith
  then show "bit (BigEndian_Uint32 (ucast (drop_bit 24 v)) (ucast (drop_bit 16 v))
                 (ucast (drop_bit 8 v)) (ucast v)) n = bit v n"
    using n by cases (auto simp: BigEndian_Uint32_def bit_simps)
qed

lemma PutUint32_be32: "n < 2 ^ 32 \<Longrightarrow> BigEndian_PutUint32 (word_of_nat n) = length_be32 n"
  apply (simp add: BigEndian_PutUint32_def length_be32_def)
  apply (simp add: word_unat_eq_iff unsigned_ucast_eq unat_drop_bit_eq unat_div_distrib unat_of_nat drop_bit_eq_div take_bit_eq_mod)
  done

lemma PutUint32_length [simp]: "length (BigEndian_PutUint32 v) = 4"
  by (simp add: BigEndian_PutUint32_def)

lemma New_wf:
  "wf_buf (NewElasticUnsafeByteBuf n) \<and> readable (NewElasticUnsafeByteBuf n) = [] \<and>
   readIndex (NewElasticUnsafeByteBuf n) = 0 \<and> writeIndex (NewElasticUnsafeByteBuf n) = 0"
  by (simp add: NewElasticUnsafeByteBuf_def wf_buf_def readable_def Let_def)

lemma assembleFrame_ok:
  "\<exists>buf. assembleFrame config payload = Inr buf \<and> wf_buf buf \<and>
     readable buf = TagValue config # BigEndian_PutUint32 (payloadLengthOf payload) @ payload \<and>
     readIndex buf = 0 \<and> writeIndex buf = 5 + int (length payload)"
proof -
  define b0 where "b0 = NewElasticUnsafeByteBuf (uint (frameSizeOf payload))"
  have b0: "wf_buf b0" "readable b0 = []" "readIndex b0 = 0" "writeIndex b0 = 0"
    using New_wf [of "uint (frameSizeOf payload)"] by (simp_all add: b0_def)
  from WriteBytes_wf [OF b0(1), of "[TagValue config]"] b0 obtain b1 where
    b1: "WriteBytes b0 [TagValue config] = Inr b1" "wf_buf b1" "readable b1 = [TagValue config]"
      "readIndex b1 = 0" "writeIndex b1 = 1"
    by auto
  from WriteBytes_wf [OF b1(2), of "BigEndian_PutUint32 (payloadLengthOf payload)"] b1 obtain b2 where
    b2: "WriteBytes b1 (BigEndian_PutUint32 (payloadLengthOf payload)) = Inr b2" "wf_buf b2"
      "readable b2 = TagValue config # BigEndian_PutUint32 (payloadLengthOf payload)"
      "readIndex b2 = 0" "writeIndex b2 = 5"
    by auto
  from WriteBytes_wf [OF b2(2), of payload] b2 obtain b3 where
    b3: "WriteBytes b2 payload = Inr b3" "wf_buf b3"
      "readable b3 = TagValue config # BigEndian_PutUint32 (payloadLengthOf payload) @ payload"
      "readIndex b3 = 0" "writeIndex b3 = 5 + int (length payload)"
    by auto
  have "assembleFrame config payload = Inr b3"
    using b1(1) b2(1) b3(1)
    by (simp add: assembleFrame_def b0_def [symmetric] binary_Write_uint8_def
        binary_Write_uint32_def Write_def)
  with b3 show ?thesis by blast
qed

lemma Encode_ByteSlice:
  "Encode config (ByteSlice payload) =
     Inr (if FrameLimit config > 0 \<and> frameSizeOf payload > ucast (FrameLimit config)
          then encodeFailure (FrameSizeLargerThanLimit (unat (frameSizeOf payload))
                                (unat (FrameLimit config)))
          else if frameSizeOf payload \<noteq> word_of_int (5 + int (length payload))
          then encodeFailure (Msg ''ByteBuf issue'')
          else encodeSuccess (TagValue config # BigEndian_PutUint32 (payloadLengthOf payload) @ payload))"
proof -
  from assembleFrame_ok [of config payload] obtain buf where
    buf: "assembleFrame config payload = Inr buf" "wf_buf buf"
      "readable buf = TagValue config # BigEndian_PutUint32 (payloadLengthOf payload) @ payload"
      "readIndex buf = 0" "writeIndex buf = 5 + int (length payload)"
    by blast
  have rb: "ReadableBytes buf = 5 + int (length payload)"
    using buf by (simp add: ReadableBytes_def calcReadableBytes_def)
  have "0 \<le> ReadableBytes buf" "ReadableBytes buf \<le> ReadableBytes buf" using rb by simp_all
  from ReadBytes_wf [OF buf(2) this] obtain pb' where
    rd: "ReadBytes buf (ReadableBytes buf) = Inr (take (nat (ReadableBytes buf)) (readable buf), pb')"
    by blast
  have all: "take (nat (ReadableBytes buf)) (readable buf) = readable buf"
    using rb buf(3) by (simp add: nat_add_distrib)
  show ?thesis
    using buf(1) rd all buf(3) rb
    by (simp add: Encode_def Let_def)
qed

lemma unat_ucast_32_64: "unat (ucast (x :: 32 word) :: 64 word) = unat x"
proof -
  have "unat x < 2 ^ 32" using unsigned_less [of x] by simp
  then have "unat x < 2 ^ 64" by simp
  then show ?thesis by (simp add: unsigned_ucast_eq take_bit_nat_eq_self)
qed

lemma frameSizeOf_small:
  assumes "length payload + 5 < 2 ^ 32"
  shows "unat (frameSizeOf payload) = 1 + 4 + length payload"
    and "frameSizeOf payload = word_of_int (5 + int (length payload))"
proof -
  define k where "k = length payload + 5"
  have w: "payloadLengthOf payload + word_of_int LengthSize + word_of_int TagSize
            = (word_of_nat k :: 32 word)"
    by (simp add: payloadLengthOf_def LengthSize_def TagSize_def k_def)
  have "unat (word_of_nat k :: 32 word) = k mod 2 ^ LENGTH(32)" by (rule unat_of_nat)
  also have "\<dots> = k" using assms by (simp add: k_def)
  finally have u: "unat (word_of_nat k :: 32 word) = k" .
  have "unat (frameSizeOf payload) = k"
    unfolding frameSizeOf_def w by (simp only: unat_ucast_32_64 u)
  then show 1: "unat (frameSizeOf payload) = 1 + 4 + length payload" by (simp add: k_def)
  have "word_of_int (5 + int (length payload)) = (word_of_nat k :: 64 word)"
    by (simp add: k_def)
  moreover have "unat (word_of_nat k :: 64 word) = k mod 2 ^ LENGTH(64)" by (rule unat_of_nat)
  moreover have "k mod 2 ^ LENGTH(64) = k" using assms by (simp add: k_def)
  ultimately have "unat (word_of_int (5 + int (length payload)) :: 64 word) = k" by simp
  with \<open>unat (frameSizeOf payload) = k\<close>
  show "frameSizeOf payload = word_of_int (5 + int (length payload))"
    by (simp only: word_unat_eq_iff)
qed


section \<open>Properties of the TLV decoder\<close>

lemma ReadBytes_prefix:
  assumes "wf_buf inb" "readable inb = xs @ rest"
  shows "\<exists>inb'. ReadBytes inb (int (length xs)) = Inr (xs, inb') \<and> wf_buf inb' \<and> readable inb' = rest"
proof -
  have "int (length xs) \<le> ReadableBytes inb"
    using assms by (simp add: ReadableBytes_readable)
  from ReadBytes_wf [OF assms(1) _ this] assms(2) show ?thesis by auto
qed

lemma parseTag_latched: "hasTag c \<Longrightarrow> parseTag c inb = Inr (None, c, inb)"
  by (simp add: parseTag_def)

lemma parseTag_empty:
  "\<not> hasTag c \<Longrightarrow> wf_buf inb \<Longrightarrow> readable inb = [] \<Longrightarrow>
     parseTag c inb = Inr (Some (Nothing, c), c, inb)"
  by (simp add: parseTag_def ReadableBytes_readable TagSize_def decodeNothing_def decodeSuccess_def)

lemma parseTag_tag:
  assumes "\<not> hasTag c" "wf_buf inb" "readable inb = TagValue (Config c) # rest"
  shows "\<exists>inb'. parseTag c inb = Inr (None, c\<lparr>tagValue := TagValue (Config c), hasTag := True\<rparr>, inb') \<and>
           wf_buf inb' \<and> readable inb' = rest"
proof -
  from ReadBytes_prefix [OF assms(2), of "[TagValue (Config c)]" rest] assms(3)
  obtain inb' where "ReadBytes inb 1 = Inr ([TagValue (Config c)], inb')" "wf_buf inb'"
    "readable inb' = rest" by auto
  then show ?thesis
    using assms by (simp add: parseTag_def ReadableBytes_readable TagSize_def binary_Read_uint8_def)
qed

lemma parseLength_skip: "\<not> (hasTag c \<and> \<not> hasLength c) \<Longrightarrow> parseLength c inb = Inr (None, c, inb)"
  by (auto simp: parseLength_def)

lemma parseLength_short:
  "hasTag c \<Longrightarrow> \<not> hasLength c \<Longrightarrow> wf_buf inb \<Longrightarrow> length (readable inb) < 4 \<Longrightarrow>
     parseLength c inb = Inr (Some (Nothing, c), c, inb)"
  by (simp add: parseLength_def ReadableBytes_readable LengthSize_def)

lemma binary_Read_PutUint32: "binary_Read_uint32 (BigEndian_PutUint32 v) = Inr v"
  by (simp add: binary_Read_uint32_def BigEndian_PutUint32_def BigEndian_roundtrip)

lemma parseLength_length:
  assumes "hasTag c" "\<not> hasLength c" "wf_buf inb" "readable inb = BigEndian_PutUint32 v @ rest"
  shows "\<exists>inb'. parseLength c inb = Inr (None, c\<lparr>lengthValue := v, hasLength := True\<rparr>, inb') \<and>
           wf_buf inb' \<and> readable inb' = rest"
proof -
  from ReadBytes_prefix [OF assms(3,4)]
  obtain inb' where "ReadBytes inb 4 = Inr (BigEndian_PutUint32 v, inb')" "wf_buf inb'"
    "readable inb' = rest" by auto
  then show ?thesis
    using assms by (simp add: parseLength_def ReadableBytes_readable LengthSize_def binary_Read_PutUint32)
qed

lemma parseValue_short:
  assumes "hasTag c" "hasLength c" "wf_buf inb" "length (readable inb) < unat (lengthValue c)"
  shows "parseValue c inb = Inr (Some (Nothing, c), c, inb)"
proof -
  have "int (length (readable inb)) < int (unat (lengthValue c))"
    using assms(4) by (simp only: of_nat_less_iff)
  then have "ReadableBytes inb < uint (lengthValue c)"
    by (simp only: ReadableBytes_readable [OF assms(3)] uint_nat)
  then show ?thesis using assms(1,2) by (simp add: parseValue_def)
qed

lemma limit_check:
  assumes "valid_payload config p"
  shows "\<not> (FrameLimit config > 0 \<and>
            (word_of_int (TagSize + LengthSize) :: 64 word) + word_of_nat (length p)
               > ucast (FrameLimit config))"
proof (cases "FrameLimit config = 0")
  case True
  then show ?thesis by simp
next
  case False
  with assms have le: "5 + length p \<le> unat (FrameLimit config)" and small: "length p + 5 < 2 ^ 32"
    by (simp_all add: valid_payload_def)
  have "(word_of_int (TagSize + LengthSize) :: 64 word) + word_of_nat (length p)
          = word_of_nat (5 + length p)"
    by (simp add: TagSize_def LengthSize_def)
  moreover have "unat (word_of_nat (5 + length p) :: 64 word) = (5 + length p) mod 2 ^ LENGTH(64)"
    by (rule unat_of_nat)
  moreover have "(5 + length p) mod 2 ^ LENGTH(64) = 5 + length p" using small by simp
  ultimately have "unat ((word_of_int (TagSize + LengthSize) :: 64 word) + word_of_nat (length p))
                     = 5 + length p" by simp
  with le show ?thesis
    by (simp add: word_less_nat_alt unat_ucast_32_64)
qed

lemma parseValue_value:
  assumes "hasTag c" "hasLength c" "wf_buf inb" "readable inb = p @ rest"
    "unat (lengthValue c) = length p" "valid_payload (Config c) p"
  shows "\<exists>inb'. parseValue c inb = Inr (Some (Decoded p, resetBuffer c), c, inb') \<and>
           wf_buf inb' \<and> readable inb' = rest"
proof -
  have u: "uint (lengthValue c) = int (length p)"
    by (simp only: uint_nat assms(5))
  have "\<not> ReadableBytes inb < uint (lengthValue c)"
    by (simp add: u ReadableBytes_readable [OF assms(3)] assms(4))
  moreover from ReadBytes_prefix [OF assms(3,4)]
  obtain inb' where "ReadBytes inb (uint (lengthValue c)) = Inr (p, inb')" "wf_buf inb'"
    "readable inb' = rest" unfolding u by auto
  ultimately show ?thesis
    using assms(1,2) limit_check [OF assms(6)]
    by (auto simp: parseValue_def decodeSuccess_def)
qed


lemma PutUint32_inj:
  assumes "BigEndian_PutUint32 a = BigEndian_PutUint32 b"
  shows "a = b"
proof -
  have "binary_Read_uint32 (BigEndian_PutUint32 a) = binary_Read_uint32 (BigEndian_PutUint32 b)"
    by (simp only: assms)
  then have "(Inr a :: string + 32 word) = Inr b" by (simp only: binary_Read_PutUint32)
  then show ?thesis by simp
qed

lemma valid_payload_unat:
  "valid_payload config p \<Longrightarrow> unat (word_of_nat (length p) :: 32 word) = length p"
  by (simp add: valid_payload_def unat_of_nat)

lemma tlv_frame_Put:
  "valid_payload config p \<Longrightarrow>
     tlv_frame tag p = tag # BigEndian_PutUint32 (word_of_nat (length p)) @ p"
  by (simp add: tlv_frame_def valid_payload_def PutUint32_be32)

lemma Decode_alt:
  "Decode c inb =
     (case parseTag c inb of
        Inl p \<Rightarrow> Inl p
      | Inr (Some (r, c'), _, inb1) \<Rightarrow> Inr (r, c', inb1)
      | Inr (None, c1, inb1) \<Rightarrow> decodeFromLength c1 inb1)"
  by (simp add: Decode_def decodeFromLength_def decodeFromValue_def
      split: sum.splits prod.splits option.splits)

lemma Decode_latched: "hasTag c \<Longrightarrow> Decode c inb = decodeFromLength c inb"
  by (simp add: Decode_alt parseTag_latched)

lemma decodeFromLength_latched:
  "hasTag c \<Longrightarrow> hasLength c \<Longrightarrow> decodeFromLength c inb = decodeFromValue c inb"
  by (simp add: decodeFromLength_def parseLength_skip)

lemma append_split_left:
  "length a \<le> length xs \<Longrightarrow> xs @ z = a @ p \<Longrightarrow> \<exists>pre2. xs = a @ pre2 \<and> pre2 @ z = p"
  by (auto simp: append_eq_append_conv2)

lemma Put_append_eq:
  "BigEndian_PutUint32 a @ xs = BigEndian_PutUint32 b @ ys \<longleftrightarrow> a = b \<and> xs = ys"
proof
  assume "BigEndian_PutUint32 a @ xs = BigEndian_PutUint32 b @ ys"
  then have "BigEndian_PutUint32 a = BigEndian_PutUint32 b \<and> xs = ys"
    by (subst (asm) append_eq_append_conv) simp_all
  then show "a = b \<and> xs = ys" by (simp add: PutUint32_inj)
next
  assume "a = b \<and> xs = ys"
  then show "BigEndian_PutUint32 a @ xs = BigEndian_PutUint32 b @ ys" by simp
qed

text \<open>Third block: the tag and the length are latched.\<close>

lemma value_complete:
  assumes "tlv_inv config c inb" "hasTag c" "hasLength c" "valid_payload config p"
    "pending c inb = tlv_frame (TagValue config) p @ rest"
  shows "\<exists>c' inb'. decodeFromValue c inb = Inr (Decoded p, c', inb') \<and> tlv_inv config c' inb' \<and>
           pending c' inb' = rest"
proof -
  from assms(1) have wf: "wf_buf inb" and cfg: "Config c = config" by (simp_all add: tlv_inv_def)
  define w :: "32 word" where "w = word_of_nat (length p)"
  have tf: "tlv_frame (TagValue config) p = TagValue config # BigEndian_PutUint32 w @ p"
    unfolding w_def by (rule tlv_frame_Put [OF assms(4)])
  have "BigEndian_PutUint32 (lengthValue c) @ readable inb = BigEndian_PutUint32 w @ p @ rest"
    using assms(2,3,5) cfg by (simp add: pending_def latched_def tf)
  then have lv: "lengthValue c = w" and rd: "readable inb = p @ rest"
    by (simp_all only: Put_append_eq)
  have u: "unat (lengthValue c) = length p"
    unfolding lv w_def by (rule valid_payload_unat [OF assms(4)])
  from assms(4) cfg have v: "valid_payload (Config c) p" by simp
  from parseValue_value [OF assms(2,3) wf rd u v]
  obtain inb' where "parseValue c inb = Inr (Some (Decoded p, resetBuffer c), c, inb')"
    "wf_buf inb'" "readable inb' = rest" by auto
  then show ?thesis
    using cfg by (simp add: decodeFromValue_def tlv_inv_def pending_def latched_def resetBuffer_def)
qed

lemma value_incomplete:
  assumes "tlv_inv config c inb" "hasTag c" "hasLength c" "valid_payload config p"
    "strict_prefix (pending c inb) (tlv_frame (TagValue config) p)"
  shows "decodeFromValue c inb = Inr (Nothing, c, inb)"
proof -
  from assms(1) have wf: "wf_buf inb" and cfg: "Config c = config" by (simp_all add: tlv_inv_def)
  define w :: "32 word" where "w = word_of_nat (length p)"
  have tf: "tlv_frame (TagValue config) p = TagValue config # BigEndian_PutUint32 w @ p"
    unfolding w_def by (rule tlv_frame_Put [OF assms(4)])
  from assms(5) obtain z zs where "tlv_frame (TagValue config) p = pending c inb @ z # zs"
    by (rule strict_prefixE')
  then have "BigEndian_PutUint32 (lengthValue c) @ (readable inb @ z # zs)
          = BigEndian_PutUint32 w @ p"
    using assms(2,3) cfg by (simp add: pending_def latched_def tf)
  then have lv: "lengthValue c = w" and rd: "readable inb @ z # zs = p"
    by (simp_all only: Put_append_eq)
  have u: "unat (lengthValue c) = length p"
    unfolding lv w_def by (rule valid_payload_unat [OF assms(4)])
  have "length (readable inb) < length p" using rd [symmetric] by simp
  then have "length (readable inb) < unat (lengthValue c)" by (simp only: u)
  from parseValue_short [OF assms(2,3) wf this] show ?thesis
    by (simp add: decodeFromValue_def)
qed


text \<open>Second block: only the tag is latched.\<close>

lemma length_complete:
  assumes "tlv_inv config c inb" "hasTag c" "\<not> hasLength c" "valid_payload config p"
    "pending c inb = tlv_frame (TagValue config) p @ rest"
  shows "\<exists>c' inb'. decodeFromLength c inb = Inr (Decoded p, c', inb') \<and> tlv_inv config c' inb' \<and>
           pending c' inb' = rest"
proof -
  from assms(1) have wf: "wf_buf inb" and cfg: "Config c = config" by (simp_all add: tlv_inv_def)
  define w :: "32 word" where "w = word_of_nat (length p)"
  define c2 where "c2 = c\<lparr>lengthValue := w, hasLength := True\<rparr>"
  have tf: "tlv_frame (TagValue config) p = TagValue config # BigEndian_PutUint32 w @ p"
    unfolding w_def by (rule tlv_frame_Put [OF assms(4)])
  have rd: "readable inb = BigEndian_PutUint32 w @ (p @ rest)"
    using assms(2,3,5) cfg by (simp add: pending_def latched_def tf)
  from parseLength_length [OF assms(2,3) wf rd]
  obtain inb2 where 2: "parseLength c inb = Inr (None, c2, inb2)" "wf_buf inb2"
    "readable inb2 = p @ rest" unfolding c2_def by auto
  have inv2: "tlv_inv config c2 inb2" "hasTag c2" "hasLength c2"
    using 2 assms(2) cfg by (simp_all add: tlv_inv_def c2_def)
  have p2: "pending c2 inb2 = tlv_frame (TagValue config) p @ rest"
    using 2 assms(2) cfg by (simp add: pending_def latched_def c2_def tf)
  have "decodeFromLength c inb = decodeFromValue c2 inb2"
    by (simp add: decodeFromLength_def 2)
  with value_complete [OF inv2 assms(4) p2] show ?thesis by simp
qed

lemma length_incomplete:
  assumes "tlv_inv config c inb" "hasTag c" "\<not> hasLength c" "valid_payload config p"
    "strict_prefix (pending c inb) (tlv_frame (TagValue config) p)"
  shows "\<exists>c' inb'. decodeFromLength c inb = Inr (Nothing, c', inb') \<and> tlv_inv config c' inb' \<and>
           pending c' inb' = pending c inb"
proof -
  from assms(1) have wf: "wf_buf inb" and cfg: "Config c = config" by (simp_all add: tlv_inv_def)
  define w :: "32 word" where "w = word_of_nat (length p)"
  define c2 where "c2 = c\<lparr>lengthValue := w, hasLength := True\<rparr>"
  have tf: "tlv_frame (TagValue config) p = TagValue config # BigEndian_PutUint32 w @ p"
    unfolding w_def by (rule tlv_frame_Put [OF assms(4)])
  have pd: "pending c inb = TagValue config # readable inb"
    using assms(2,3) cfg by (simp add: pending_def latched_def)
  from assms(5) obtain z zs where "tlv_frame (TagValue config) p = pending c inb @ z # zs"
    by (rule strict_prefixE')
  then have eq: "readable inb @ z # zs = BigEndian_PutUint32 w @ p"
    by (simp add: pd tf)
  show ?thesis
  proof (cases "length (readable inb) < 4")
    case True
    from parseLength_short [OF assms(2,3) wf True] assms(1) show ?thesis
      by (simp add: decodeFromLength_def)
  next
    case False
    then have "length (BigEndian_PutUint32 w) \<le> length (readable inb)" by simp
    from append_split_left [OF this eq]
    obtain pre2 where rd: "readable inb = BigEndian_PutUint32 w @ pre2" and p: "pre2 @ z # zs = p"
      by blast
    from parseLength_length [OF assms(2,3) wf rd]
    obtain inb2 where 2: "parseLength c inb = Inr (None, c2, inb2)" "wf_buf inb2"
      "readable inb2 = pre2" unfolding c2_def by auto
    have inv2: "tlv_inv config c2 inb2" "hasTag c2" "hasLength c2"
      using 2 assms(2) cfg by (simp_all add: tlv_inv_def c2_def)
    have p2: "pending c2 inb2 = pending c inb"
      using 2 assms(2) cfg by (simp add: pd rd) (simp add: pending_def latched_def c2_def)
    have sp: "strict_prefix (pending c2 inb2) (tlv_frame (TagValue config) p)"
      using assms(5) by (simp only: p2)
    have "decodeFromLength c inb = decodeFromValue c2 inb2"
      by (simp add: decodeFromLength_def 2)
    with value_incomplete [OF inv2 assms(4) sp] inv2(1) p2 show ?thesis by simp
  qed
qed

text \<open>First block: nothing is latched.\<close>

lemma tag_complete:
  assumes "tlv_inv config c inb" "\<not> hasTag c" "valid_payload config p"
    "pending c inb = tlv_frame (TagValue config) p @ rest"
  shows "\<exists>c' inb'. Decode c inb = Inr (Decoded p, c', inb') \<and> tlv_inv config c' inb' \<and>
           pending c' inb' = rest"
proof -
  from assms(1,2) have wf: "wf_buf inb" and cfg: "Config c = config" and nl: "\<not> hasLength c"
    by (auto simp: tlv_inv_def)
  define c1 where "c1 = c\<lparr>tagValue := TagValue (Config c), hasTag := True\<rparr>"
  have rd: "readable inb = TagValue (Config c) # drop 1 (tlv_frame (TagValue config) p) @ rest"
    using assms(2,4) cfg by (simp add: pending_def latched_def tlv_frame_def)
  from parseTag_tag [OF assms(2) wf rd]
  obtain inb1 where 1: "parseTag c inb = Inr (None, c1, inb1)" "wf_buf inb1"
    "readable inb1 = drop 1 (tlv_frame (TagValue config) p) @ rest" unfolding c1_def by auto
  have inv1: "tlv_inv config c1 inb1" "hasTag c1" "\<not> hasLength c1"
    using 1 nl cfg by (simp_all add: tlv_inv_def c1_def)
  have p1: "pending c1 inb1 = tlv_frame (TagValue config) p @ rest"
    using 1 nl cfg by (simp add: pending_def latched_def c1_def tlv_frame_def)
  have "Decode c inb = decodeFromLength c1 inb1" by (simp add: Decode_alt 1)
  with length_complete [OF inv1 assms(3) p1] show ?thesis by simp
qed

lemma tag_incomplete:
  assumes "tlv_inv config c inb" "\<not> hasTag c" "valid_payload config p"
    "strict_prefix (pending c inb) (tlv_frame (TagValue config) p)"
  shows "\<exists>c' inb'. Decode c inb = Inr (Nothing, c', inb') \<and> tlv_inv config c' inb' \<and>
           pending c' inb' = pending c inb"
proof -
  from assms(1,2) have wf: "wf_buf inb" and cfg: "Config c = config" and nl: "\<not> hasLength c"
    by (auto simp: tlv_inv_def)
  define c1 where "c1 = c\<lparr>tagValue := TagValue (Config c), hasTag := True\<rparr>"
  have pd: "pending c inb = readable inb" using assms(2) by (simp add: pending_def latched_def)
  show ?thesis
  proof (cases "readable inb")
    case Nil
    from parseTag_empty [OF assms(2) wf Nil] assms(1) show ?thesis
      by (simp add: Decode_alt)
  next
    case (Cons t pre1)
    from assms(4) have "prefix (t # pre1) (tlv_frame (TagValue config) p)"
      by (simp add: pd Cons strict_prefix_def)
    then have t: "t = TagValue (Config c)" by (simp add: tlv_frame_def cfg)
    from parseTag_tag [OF assms(2) wf Cons [unfolded t]]
    obtain inb1 where 1: "parseTag c inb = Inr (None, c1, inb1)" "wf_buf inb1"
      "readable inb1 = pre1" unfolding c1_def by auto
    have inv1: "tlv_inv config c1 inb1" "hasTag c1" "\<not> hasLength c1"
      using 1 nl cfg by (simp_all add: tlv_inv_def c1_def)
    have p1: "pending c1 inb1 = pending c inb"
      using 1 nl cfg by (simp add: pd Cons t) (simp add: pending_def latched_def c1_def)
    have sp: "strict_prefix (pending c1 inb1) (tlv_frame (TagValue config) p)"
      using assms(4) by (simp only: p1)
    have "Decode c inb = decodeFromLength c1 inb1" by (simp add: Decode_alt 1)
    with length_incomplete [OF inv1 assms(3) sp] p1 show ?thesis by simp
  qed
qed

text \<open>The two facts about one call of \<open>Decode\<close>, whatever is latched.\<close>

lemma Decode_complete:
  assumes "tlv_inv config c inb" "valid_payload config p"
    "pending c inb = tlv_frame (TagValue config) p @ rest"
  shows "\<exists>c' inb'. Decode c inb = Inr (Decoded p, c', inb') \<and> tlv_inv config c' inb' \<and>
           pending c' inb' = rest"
proof (cases "hasTag c")
  case False
  from tag_complete [OF assms(1) False assms(2,3)] show ?thesis .
next
  case True
  show ?thesis
  proof (cases "hasLength c")
    case False
    from length_complete [OF assms(1) True False assms(2,3)] show ?thesis
      by (simp add: Decode_latched [OF True])
  next
    case hl: True
    from value_complete [OF assms(1) True hl assms(2,3)] show ?thesis
      by (simp add: Decode_latched [OF True] decodeFromLength_latched [OF True hl])
  qed
qed

lemma Decode_incomplete:
  assumes "tlv_inv config c inb" "partial_frame config (pending c inb)"
  shows "\<exists>c' inb'. Decode c inb = Inr (Nothing, c', inb') \<and> tlv_inv config c' inb' \<and>
           pending c' inb' = pending c inb"
proof (cases "pending c inb = []")
  case True
  then have nt: "\<not> hasTag c" and rd: "readable inb = []"
    by (auto simp: pending_def latched_def split: if_splits)
  from assms(1) have wf: "wf_buf inb" by (simp add: tlv_inv_def)
  from parseTag_empty [OF nt wf rd] assms(1) show ?thesis by (simp add: Decode_alt)
next
  case False
  with assms(2) obtain p where p: "valid_payload config p"
    "strict_prefix (pending c inb) (tlv_frame (TagValue config) p)"
    by (auto simp: partial_frame_def)
  show ?thesis
  proof (cases "hasTag c")
    case nt: False
    from tag_incomplete [OF assms(1) nt p] show ?thesis .
  next
    case True
    show ?thesis
    proof (cases "hasLength c")
      case False
      from length_incomplete [OF assms(1) True False p] show ?thesis
        by (simp add: Decode_latched [OF True])
    next
      case hl: True
      from value_incomplete [OF assms(1) True hl p] assms(1) show ?thesis
        by (simp add: Decode_latched [OF True] decodeFromLength_latched [OF True hl])
    qed
  qed
qed


section \<open>Draining and chunked input\<close>

lemma drain_frames:
  assumes "\<forall>p \<in> set ps. valid_payload config p" "partial_frame config pre"
  shows "tlv_inv config c inb \<Longrightarrow> pending c inb = frames config ps @ pre \<Longrightarrow>
         \<exists>c' inb'. drain Decode c inb out = Some (Inr (out @ map InboundData ps, c', inb')) \<and>
           tlv_inv config c' inb' \<and> pending c' inb' = pre"
  using assms(1)
proof (induction ps arbitrary: c inb out)
  case Nil
  then have "partial_frame config (pending c inb)" using assms(2) by (simp add: frames_def)
  from Decode_incomplete [OF Nil.prems(1) this] Nil.prems(2) show ?case
    by (subst drain.simps) (auto simp: frames_def)
next
  case (Cons p ps)
  have v: "valid_payload config p" using Cons.prems(3) by simp
  have pd: "pending c inb = tlv_frame (TagValue config) p @ (frames config ps @ pre)"
    using Cons.prems(2) by (simp add: frames_def)
  from Decode_complete [OF Cons.prems(1) v pd]
  obtain c1 inb1 where 1: "Decode c inb = Inr (Decoded p, c1, inb1)" "tlv_inv config c1 inb1"
    "pending c1 inb1 = frames config ps @ pre" by blast
  have "\<forall>p \<in> set ps. valid_payload config p" using Cons.prems(3) by simp
  from Cons.IH [OF 1(2,3) this, of "out @ [InboundData p]"]
  obtain c' inb' where "drain Decode c1 inb1 (out @ [InboundData p])
      = Some (Inr ((out @ [InboundData p]) @ map InboundData ps, c', inb'))"
    "tlv_inv config c' inb'" "pending c' inb' = pre" by blast
  then show ?case using 1(1) by (subst drain.simps) simp
qed


lemma partial_frame_prefix:
  assumes "partial_frame config pre" "prefix xs pre"
  shows "partial_frame config xs"
proof (cases "pre = []")
  case True
  with assms(2) show ?thesis by (simp add: partial_frame_def)
next
  case False
  with assms(1) obtain q where "valid_payload config q"
    "strict_prefix pre (tlv_frame (TagValue config) q)" by (auto simp: partial_frame_def)
  moreover from this(2) assms(2) have "strict_prefix xs (tlv_frame (TagValue config) q)"
    by (rule prefix_order.le_less_trans [rotated])
  ultimately show ?thesis by (auto simp: partial_frame_def)
qed

lemma frames_split:
  assumes "partial_frame config tail"
  shows "\<forall>p \<in> set ps. valid_payload config p \<Longrightarrow> X @ Y = frames config ps @ tail \<Longrightarrow>
         \<exists>ps1 ps2 pre1. ps = ps1 @ ps2 \<and> X = frames config ps1 @ pre1 \<and>
           partial_frame config pre1 \<and> pre1 @ Y = frames config ps2 @ tail"
proof (induction ps arbitrary: X)
  case Nil
  then have "prefix X tail" by (simp add: frames_def prefix_def) metis
  from partial_frame_prefix [OF assms this] Nil.prems(2) show ?case
    by (intro exI [of _ "[]"] exI [of _ X]) (simp add: frames_def)
next
  case (Cons p ps)
  define f where "f = tlv_frame (TagValue config) p"
  have v: "valid_payload config p" and vs: "\<forall>p \<in> set ps. valid_payload config p"
    using Cons.prems(1) by simp_all
  have eq: "X @ Y = f @ (frames config ps @ tail)"
    using Cons.prems(2) by (simp add: frames_def f_def)
  show ?case
  proof (cases "length f \<le> length X")
    case True
    from append_split_left [OF True eq]
    obtain us where X: "X = f @ us" and us: "us @ Y = frames config ps @ tail" by blast
    from Cons.IH [OF vs us]
    obtain ps1 ps2 pre1 where "ps = ps1 @ ps2" "us = frames config ps1 @ pre1"
      "partial_frame config pre1" "pre1 @ Y = frames config ps2 @ tail" by blast
    then show ?thesis
      using X by (intro exI [of _ "p # ps1"] exI [of _ ps2] exI [of _ pre1])
        (simp add: frames_def f_def)
  next
    case False
    then have "length X < length f" by simp
    with eq have "strict_prefix X f"
      by (auto simp: strict_prefix_def prefix_def append_eq_append_conv2)
    with v have "partial_frame config X" by (auto simp: partial_frame_def f_def)
    then show ?thesis
      using Cons.prems(2) by (intro exI [of _ "[]"] exI [of _ "p # ps"] exI [of _ X])
        (simp add: frames_def)
  qed
qed

lemma partial_frame_no_frame:
  assumes "partial_frame config (tlv_frame (TagValue config) p @ rest)" "valid_payload config p"
  shows False
proof -
  define wp :: "32 word" where "wp = word_of_nat (length p)"
  have tp: "tlv_frame (TagValue config) p = TagValue config # BigEndian_PutUint32 wp @ p"
    unfolding wp_def by (rule tlv_frame_Put [OF assms(2)])
  have "tlv_frame (TagValue config) p @ rest \<noteq> []" by (simp add: tlv_frame_def)
  with assms(1) obtain q where q: "valid_payload config q"
    "strict_prefix (tlv_frame (TagValue config) p @ rest) (tlv_frame (TagValue config) q)"
    by (auto simp: partial_frame_def)
  define wq :: "32 word" where "wq = word_of_nat (length q)"
  have tq: "tlv_frame (TagValue config) q = TagValue config # BigEndian_PutUint32 wq @ q"
    unfolding wq_def by (rule tlv_frame_Put [OF q(1)])
  from q(2) obtain z zs where
    "tlv_frame (TagValue config) q = (tlv_frame (TagValue config) p @ rest) @ z # zs"
    by (rule strict_prefixE')
  then have "BigEndian_PutUint32 wq @ q = BigEndian_PutUint32 wp @ (p @ rest @ z # zs)"
    by (simp add: tp tq)
  then have w: "wq = wp" and qq: "q = p @ rest @ z # zs" by (simp_all only: Put_append_eq)
  have "unat wq = length q" unfolding wq_def by (rule valid_payload_unat [OF q(1)])
  moreover have "unat wp = length p" unfolding wp_def by (rule valid_payload_unat [OF assms(2)])
  ultimately have "length q = length p" using w by simp
  moreover have "length q = length p + length rest + Suc (length zs)" by (simp add: qq)
  ultimately show False by simp
qed

lemma partial_frame_frames:
  assumes "partial_frame config (frames config ps @ tail)" "\<forall>p \<in> set ps. valid_payload config p"
  shows "ps = []"
proof (cases ps)
  case Nil
  then show ?thesis .
next
  case (Cons p ps')
  with assms have "partial_frame config (tlv_frame (TagValue config) p @ (frames config ps' @ tail))"
    "valid_payload config p" by (simp_all add: frames_def)
  then show ?thesis using partial_frame_no_frame by blast
qed

lemma pending_WriteBytes:
  assumes "tlv_inv config c inb"
  shows "\<exists>inb'. WriteBytes inb chunk = Inr inb' \<and> tlv_inv config c inb' \<and>
           pending c inb' = pending c inb @ chunk"
proof -
  from assms have "wf_buf inb" by (simp add: tlv_inv_def)
  from WriteBytes_wf [OF this, of chunk] assms show ?thesis
    by (auto simp: tlv_inv_def pending_def)
qed

lemma feed_all_frames:
  assumes "partial_frame config tail"
  shows "tlv_inv config c inb \<Longrightarrow> partial_frame config (pending c inb) \<Longrightarrow>
         \<forall>p \<in> set ps. valid_payload config p \<Longrightarrow>
         pending c inb @ concat chunks = frames config ps @ tail \<Longrightarrow>
         \<exists>c' inb'. feed_all Decode c inb chunks = Some (Inr (map InboundData ps, c', inb')) \<and>
           tlv_inv config c' inb' \<and> pending c' inb' = tail"
proof (induction chunks arbitrary: c inb ps)
  case Nil
  then have "partial_frame config (frames config ps @ tail)" by simp
  from partial_frame_frames [OF this Nil.prems(3)] have "ps = []" .
  with Nil.prems show ?case by (simp add: frames_def)
next
  case (Cons chunk chunks)
  from pending_WriteBytes [OF Cons.prems(1), of chunk]
  obtain inb1 where 1: "WriteBytes inb chunk = Inr inb1" "tlv_inv config c inb1"
    "pending c inb1 = pending c inb @ chunk" by blast
  have "(pending c inb @ chunk) @ concat chunks = frames config ps @ tail"
    using Cons.prems(4) by simp
  from frames_split [OF assms Cons.prems(3) this]
  obtain ps1 ps2 pre1 where sp: "ps = ps1 @ ps2" "pending c inb @ chunk = frames config ps1 @ pre1"
    "partial_frame config pre1" "pre1 @ concat chunks = frames config ps2 @ tail" by blast
  have v1: "\<forall>p \<in> set ps1. valid_payload config p" and v2: "\<forall>p \<in> set ps2. valid_payload config p"
    using Cons.prems(3) sp(1) by simp_all
  have p1: "pending c inb1 = frames config ps1 @ pre1" using 1(3) sp(2) by simp
  from drain_frames [OF v1 sp(3) 1(2) p1, of "[]"]
  obtain c2 inb2 where 2: "drain Decode c inb1 [] = Some (Inr (map InboundData ps1, c2, inb2))"
    "tlv_inv config c2 inb2" "pending c2 inb2 = pre1" by auto
  have "partial_frame config (pending c2 inb2)" using 2(3) sp(3) by simp
  moreover have "pending c2 inb2 @ concat chunks = frames config ps2 @ tail"
    using 2(3) sp(4) by simp
  ultimately obtain c' inb' where 3:
    "feed_all Decode c2 inb2 chunks = Some (Inr (map InboundData ps2, c', inb'))"
    "tlv_inv config c' inb'" "pending c' inb' = tail"
    using Cons.IH [OF 2(2) _ v2] by blast
  show ?case
    using 1(1) 2(1) 3 sp(1) by (simp add: feed_def)
qed

lemma encoded_valid:
  assumes "encoded config p f"
  shows "valid_payload config p" and "f = tlv_frame (TagValue config) p"
proof -
  from assms have len: "length p < 2 ^ 63"
    and enc: "Encode config (ByteSlice p :: unit go_value) = Inr (Inr f)"
    by (simp_all add: encoded_def)
  from enc have lim: "\<not> (FrameLimit config > 0 \<and> frameSizeOf p > ucast (FrameLimit config))"
    and fs: "frameSizeOf p = word_of_int (5 + int (length p))"
    and f: "f = TagValue config # BigEndian_PutUint32 (payloadLengthOf p) @ p"
    by (auto simp: Encode_ByteSlice encodeFailure_def encodeSuccess_def split: if_splits)
  define k where "k = 5 + length p"
  have "word_of_int (5 + int (length p)) = (word_of_nat k :: 64 word)" by (simp add: k_def)
  moreover have "unat (word_of_nat k :: 64 word) = k mod 2 ^ LENGTH(64)" by (rule unat_of_nat)
  moreover have "k mod 2 ^ LENGTH(64) = k" using len by (simp add: k_def)
  ultimately have u: "unat (frameSizeOf p) = k" using fs by simp
  have "unat (frameSizeOf p) < 2 ^ 32"
    unfolding frameSizeOf_def unat_ucast_32_64
    using unsigned_less [of "payloadLengthOf p + word_of_int LengthSize + word_of_int TagSize"]
    by simp
  with u have small: "length p + 5 < 2 ^ 32" by (simp add: k_def)
  have "FrameLimit config = 0 \<or> 5 + length p \<le> unat (FrameLimit config)"
    using lim u by (auto simp: word_less_nat_alt unat_ucast_32_64 k_def unat_eq_0)
  with small show "valid_payload config p" by (simp add: valid_payload_def)
  from small show "f = tlv_frame (TagValue config) p"
    by (simp add: f tlv_frame_def payloadLengthOf_def PutUint32_be32)
qed


lemma tlv_inv_New:
  "tlv_inv config (NewTLVFrameDecoder config) (NewElasticUnsafeByteBuf n) \<and>
   pending (NewTLVFrameDecoder config) (NewElasticUnsafeByteBuf n) = []"
  using New_wf [of n] by (simp add: tlv_inv_def NewTLVFrameDecoder_def pending_def latched_def)

lemma encoded_frames:
  "list_all2 (encoded config) ps fs \<Longrightarrow>
     (\<forall>p \<in> set ps. valid_payload config p) \<and> concat fs = frames config ps"
proof (induction rule: list_all2_induct)
  case Nil
  then show ?case by (simp add: frames_def)
next
  case (Cons p ps f fs)
  from encoded_valid [OF Cons.hyps(1)] Cons.IH show ?case by (simp add: frames_def)
qed

lemma feed_all_general:
  assumes "list_all2 (encoded config) ps fs"
    and "tail = [] \<or> (encoded config q f \<and> strict_prefix tail f)"
    and "concat chunks = concat fs @ tail"
  shows "\<exists>c' inb'. feed_all Decode (NewTLVFrameDecoder config) (NewElasticUnsafeByteBuf n) chunks
             = Some (Inr (map InboundData ps, c', inb')) \<and> pending c' inb' = tail"
proof -
  from encoded_frames [OF assms(1)]
  have v: "\<forall>p \<in> set ps. valid_payload config p" and fs: "concat fs = frames config ps" by simp_all
  have pt: "partial_frame config tail"
    using assms(2) encoded_valid [of config q f] by (auto simp: partial_frame_def)
  have p0: "partial_frame config (pending (NewTLVFrameDecoder config) (NewElasticUnsafeByteBuf n))"
    by (simp add: tlv_inv_New partial_frame_def)
  have "pending (NewTLVFrameDecoder config) (NewElasticUnsafeByteBuf n) @ concat chunks
          = frames config ps @ tail"
    using assms(3) fs by (simp add: tlv_inv_New)
  from feed_all_frames [OF pt _ p0 v this] tlv_inv_New [of config n] show ?thesis by blast
qed

lemma encoded_hello: "encoded hello_config hello_payload hello_frame"
  by (simp add: encoded_def Encode_ByteSlice hello_config_def hello_payload_def hello_frame_def
      frameSizeOf_def payloadLengthOf_def LengthSize_def TagSize_def encodeSuccess_def
      encodeFailure_def BigEndian_PutUint32_def)


text \<open>
  C4. Take payloads \<open>ps\<close> and the frames \<open>fs\<close> that \<open>Encode\<close> returns for them, followed
  by \<open>tail\<close>, which is empty or the incomplete start of one more encoded frame. However the
  bytes \<open>concat fs @ tail\<close> are cut into chunks, feeding the chunks one at a time to a new
  decoder (append the chunk to the input buffer, call \<open>Decode\<close> until it returns
  \<^verbatim>\<open>(nil, nil)\<close>) terminates without a panic and emits exactly the payloads \<open>ps\<close>, in
  order and without a decode error: the same events as feeding the whole stream as one
  chunk. The bytes of \<open>tail\<close> stay pending. With \<open>tail = []\<close> this is the claim for whole
  frames; with \<open>ps = []\<close> and \<open>tail\<close> the first 16 bytes of a 17-byte frame it says that
  nothing is emitted before the 17th byte.
\<close>

theorem chunked_decoding:
  assumes "list_all2 (encoded config) ps fs"
    and "tail = [] \<or> (encoded config q f \<and> strict_prefix tail f)"
    and "concat chunks = concat fs @ tail"
  shows "\<exists>c1 inb1 c2 inb2.
           feed_all Decode (NewTLVFrameDecoder config) (NewElasticUnsafeByteBuf n) chunks
             = Some (Inr (map InboundData ps, c1, inb1)) \<and>
           feed_all Decode (NewTLVFrameDecoder config) (NewElasticUnsafeByteBuf n) [concat chunks]
             = Some (Inr (map InboundData ps, c2, inb2)) \<and>
           pending c1 inb1 = tail \<and> pending c2 inb2 = tail"
proof -
  have "concat [concat chunks] = concat fs @ tail" using assms(3) by simp
  from feed_all_general [OF assms(1,2) assms(3), of n] feed_all_general [OF assms(1,2) this, of n]
  show ?thesis by blast
qed

theorem chunked_decoding_witness:
  "(\<exists>c1 inb1 c2 inb2.
      feed_all Decode (NewTLVFrameDecoder hello_config) (NewElasticUnsafeByteBuf 2048)
          (map (\<lambda>b. [b]) hello_frame)
        = Some (Inr ([InboundData hello_payload], c1, inb1)) \<and>
      feed_all Decode (NewTLVFrameDecoder hello_config) (NewElasticUnsafeByteBuf 2048)
          [hello_frame]
        = Some (Inr ([InboundData hello_payload], c2, inb2)) \<and>
      pending c1 inb1 = [] \<and> pending c2 inb2 = []) \<and>
   (\<exists>c1 inb1 c2 inb2.
      feed_all Decode (NewTLVFrameDecoder hello_config) (NewElasticUnsafeByteBuf 2048)
          (map (\<lambda>b. [b]) (take 16 hello_frame))
        = Some (Inr ([], c1, inb1)) \<and>
      feed_all Decode (NewTLVFrameDecoder hello_config) (NewElasticUnsafeByteBuf 2048)
          [take 16 hello_frame]
        = Some (Inr ([], c2, inb2)) \<and>
      pending c1 inb1 = take 16 hello_frame \<and> pending c2 inb2 = take 16 hello_frame)"
proof -
  have single: "concat (map (\<lambda>b. [b]) xs) = xs" for xs :: "byte list"
    by (induction xs) simp_all
  have a: "list_all2 (encoded hello_config) [hello_payload] [hello_frame]"
    using encoded_hello by simp
  have b: "list_all2 (encoded hello_config) [] []" by simp
  have sp: "strict_prefix (take 16 hello_frame) hello_frame"
    by (simp add: hello_frame_def hello_payload_def strict_prefix_def)
  have 1: "concat (map (\<lambda>b. [b]) hello_frame) = concat [hello_frame] @ []"
    by (simp add: single)
  have 2: "concat (map (\<lambda>b. [b]) (take 16 hello_frame)) = concat [] @ take 16 hello_frame"
    by (simp add: single)
  have t1: "([]::byte list) = [] \<or> (encoded hello_config hello_payload hello_frame \<and> strict_prefix [] hello_frame)"
    by simp
  have t2: "take 16 hello_frame = [] \<or>
      (encoded hello_config hello_payload hello_frame \<and> strict_prefix (take 16 hello_frame) hello_frame)"
    using encoded_hello sp by simp
  from chunked_decoding [OF a t1 1, of 2048] chunked_decoding [OF b t2 2, of 2048]
  show ?thesis by (simp add: single)
qed


text \<open>
  C5 (as amended). For a payload of fewer than \<open>2^32 - 5\<close> bytes, \<open>Encode\<close> computes the
  frame size \<open>1 + 4 + len(payload)\<close>, fails with an \<open>EncodeError\<close> when the frame limit is
  positive and smaller than the frame size, and otherwise returns the tag, the payload
  length as four big-endian bytes and the payload. An input that is not a byte slice fails
  with an \<open>EncodeError\<close>.
\<close>

theorem Encode_frame:
  assumes "length payload + 5 < 2 ^ 32"
  shows "unat (frameSizeOf payload) = 1 + 4 + length payload \<and>
         Encode config (ByteSlice payload :: 'a go_value) =
           Inr (if 0 < FrameLimit config \<and> unat (FrameLimit config) < 1 + 4 + length payload
                then Inl (EncodeError ''TLVFrameEncoder''
                            (FrameSizeLargerThanLimit (1 + 4 + length payload)
                               (unat (FrameLimit config))))
                else Inr (tlv_frame (TagValue config) payload)) \<and>
         Encode config (OtherValue x :: 'a go_value) =
           Inr (Inl (EncodeError ''TLVFrameEncoder'' (Msg ''can not transform input to []byte'')))"
proof -
  have u: "unat (frameSizeOf payload) = 1 + 4 + length payload"
    and fs: "frameSizeOf payload = word_of_int (5 + int (length payload))"
    using frameSizeOf_small [OF assms] by simp_all
  have lim: "frameSizeOf payload > ucast (FrameLimit config)
               \<longleftrightarrow> unat (FrameLimit config) < 1 + 4 + length payload"
    by (simp only: word_less_nat_alt unat_ucast_32_64 u)
  have pos: "0 < FrameLimit config \<longleftrightarrow> FrameLimit config \<noteq> 0" by (rule word_neq_0_conv [symmetric])
  have put: "BigEndian_PutUint32 (payloadLengthOf payload) = length_be32 (length payload)"
    unfolding payloadLengthOf_def using assms by (intro PutUint32_be32) simp
  have "Encode config (ByteSlice payload :: 'a go_value) =
           Inr (if 0 < FrameLimit config \<and> unat (FrameLimit config) < 1 + 4 + length payload
                then Inl (EncodeError ''TLVFrameEncoder''
                            (FrameSizeLargerThanLimit (1 + 4 + length payload)
                               (unat (FrameLimit config))))
                else Inr (tlv_frame (TagValue config) payload))"
    unfolding Encode_ByteSlice lim u
    using fs by (simp add: put encodeFailure_def encodeSuccess_def tlv_frame_def)
  moreover have "Encode config (OtherValue x :: 'a go_value) =
           Inr (Inl (EncodeError ''TLVFrameEncoder'' (Msg ''can not transform input to []byte'')))"
    by (simp add: Encode_def encodeFailure_def)
  ultimately show ?thesis using u by simp
qed

theorem Encode_frame_witness:
  "Encode hello_config (ByteSlice hello_payload :: unit go_value) =
     Inr (Inr [0xAA, 0x00, 0x00, 0x00, 0x0C,
               0x48, 0x65, 0x6C, 0x6C, 0x6F, 0x20, 0x57, 0x6F, 0x72, 0x6C, 0x64, 0x2E])"
  using Encode_frame [of hello_payload hello_config "()"]
  by (simp add: hello_payload_def hello_config_def tlv_frame_def length_be32_def)

text \<open>
  C5 as stated fails for a payload whose length does not fit in 32 bits: for 4 GiB of
  payload and no frame limit, \<open>Encode\<close> computes the frame size 5 and returns the
  \<^verbatim>\<open>ByteBuf issue\<close> error instead of a frame.
\<close>

theorem Encode_four_gib_counterexample:
  "unat (frameSizeOf four_gib_payload) = 5 \<and>
   1 + 4 + length four_gib_payload = 4294967301 \<and>
   \<not> 0 < FrameLimit unlimited_config \<and>
   Encode unlimited_config (ByteSlice four_gib_payload :: unit go_value) =
     Inr (Inl (EncodeError ''TLVFrameEncoder'' (Msg ''ByteBuf issue'')))"
  by (simp add: Encode_ByteSlice four_gib_payload_def unlimited_config_def frameSizeOf_def
      payloadLengthOf_def LengthSize_def TagSize_def encodeSuccess_def encodeFailure_def)

text \<open>
  C9 (as amended). For a payload of fewer than \<open>2^32 - 5\<close> bytes the assembled buffer holds
  exactly \<open>frameSize\<close> readable bytes, so \<open>Encode\<close> does not return the \<^verbatim>\<open>ByteBuf issue\<close>
  error (whether or not the payload passes the frame-limit check).
\<close>

theorem assembled_size:
  assumes "length payload + 5 < 2 ^ 32"
  shows "\<exists>frameByteBuf.
           assembleFrame config payload = Inr frameByteBuf \<and>
           ReadableBytes frameByteBuf = uint (frameSizeOf payload) \<and>
           frameSizeOf payload = word_of_int (ReadableBytes frameByteBuf) \<and>
           Encode config (ByteSlice payload :: 'a go_value)
             \<noteq> Inr (Inl (EncodeError ''TLVFrameEncoder'' (Msg ''ByteBuf issue'')))"
proof -
  from assembleFrame_ok [of config payload] obtain buf where
    buf: "assembleFrame config payload = Inr buf" "readIndex buf = 0"
      "writeIndex buf = 5 + int (length payload)"
    by blast
  have rb: "ReadableBytes buf = 5 + int (length payload)"
    using buf by (simp add: ReadableBytes_def calcReadableBytes_def)
  have u: "unat (frameSizeOf payload) = 1 + 4 + length payload"
    and fs: "frameSizeOf payload = word_of_int (5 + int (length payload))"
    using frameSizeOf_small [OF assms] by simp_all
  have "uint (frameSizeOf payload) = int (unat (frameSizeOf payload))" by (rule uint_nat)
  then have ui: "uint (frameSizeOf payload) = 5 + int (length payload)" by (simp only: u)
  have "Encode config (ByteSlice payload :: 'a go_value)
          \<noteq> Inr (Inl (EncodeError ''TLVFrameEncoder'' (Msg ''ByteBuf issue'')))"
    unfolding Encode_ByteSlice using fs by (simp add: encodeFailure_def encodeSuccess_def)
  with buf(1) rb ui fs show ?thesis by simp
qed

theorem assembled_size_witness:
  "\<exists>frameByteBuf.
     assembleFrame hello_config hello_payload = Inr frameByteBuf \<and>
     ReadableBytes frameByteBuf = 17 \<and>
     Encode hello_config (ByteSlice hello_payload :: unit go_value)
       \<noteq> Inr (Inl (EncodeError ''TLVFrameEncoder'' (Msg ''ByteBuf issue'')))"
proof -
  have "uint (frameSizeOf hello_payload) = 17"
    by (simp add: frameSizeOf_def payloadLengthOf_def hello_payload_def LengthSize_def TagSize_def)
  with assembled_size [of hello_payload hello_config, where 'a = unit] show ?thesis
    by (auto simp: hello_payload_def)
qed

text \<open>
  C9 as stated fails: a payload of \<open>2^32 + 3\<close> bytes passes the check against a frame
  limit of 16 (the computed frame size is 8), and \<open>Encode\<close> returns the \<^verbatim>\<open>ByteBuf issue\<close>
  error.
\<close>

theorem ByteBuf_issue_reachable_counterexample:
  "\<not> (0 < FrameLimit limit16_config \<and>
       ucast (FrameLimit limit16_config) < frameSizeOf oversized_payload) \<and>
   Encode limit16_config (ByteSlice oversized_payload :: unit go_value) =
     Inr (Inl (EncodeError ''TLVFrameEncoder'' (Msg ''ByteBuf issue'')))"
  by (simp add: Encode_ByteSlice oversized_payload_def limit16_config_def frameSizeOf_def
      payloadLengthOf_def LengthSize_def TagSize_def encodeSuccess_def encodeFailure_def)

section \<open>Properties of the typed decoder\<close>

lemma binary_Read_uint16_two:
  assumes "wf_buf b" "readable b = hi # lo # body"
  shows "\<exists>b'. binary_Read_uint16 b = Inr (BigEndian_Uint16 hi lo, b') \<and> wf_buf b' \<and>
           readable b' = body"
proof -
  have rb: "calcReadableBytes b = 2 + int (length body)"
    using ReadableBytes_readable [OF assms(1)] assms(2) by (simp add: ReadableBytes_def)
  from ReadBytes_prefix [OF assms(1), of "[hi, lo]" body] assms(2)
  obtain b' where "ReadBytes b 2 = Inr ([hi, lo], b')" "wf_buf b'" "readable b' = body" by auto
  then show ?thesis
    using rb by (auto simp: binary_Read_uint16_def io_ReadFull_def Read_def Let_def)
qed


text \<open>
  C8. The input buffer starts with a well-formed TLV frame (the configured tag, a payload
  the configuration admits) whose payload begins with the two bytes \<open>hi\<close>, \<open>lo\<close> of a
  type code without a constructor in the configuration, and the decoder stands at a frame
  boundary. Then \<open>Decode\<close> returns \<^verbatim>\<open>(nil, nil)\<close>: no message and no error. The frame is
  consumed; what followed it is all that stays pending.
\<close>

theorem ApolloDecode_unknown_type_code:
  assumes "wf_buf inb" and "at_frame_start d"
    and "valid_payload (tlvConfig (Config' d)) (hi # lo # body)"
    and "readable inb = tlv_frame (TagValue (tlvConfig (Config' d))) (hi # lo # body) @ rest"
    and "entityConstructors (Config' d) (BigEndian_Uint16 hi lo) = None"
  shows "\<exists>tlv' inb'. ApolloDecode unmarshal d inb = Inr (Nothing, d\<lparr>tlvDecoder := Some tlv'\<rparr>, inb') \<and>
           pending tlv' inb' = rest"
proof -
  define config where "config = tlvConfig (Config' d)"
  define payload where "payload = hi # lo # body"
  define tlv where "tlv = initTLVDecoder d"
  have t: "Config tlv = config" "\<not> hasTag tlv" "\<not> hasLength tlv"
    using assms(2)
    by (auto simp: tlv_def initTLVDecoder_def at_frame_start_def config_def NewTLVFrameDecoder_def
        split: option.splits)
  have inv: "tlv_inv config tlv inb" using t assms(1) by (simp add: tlv_inv_def)
  have pd: "pending tlv inb = tlv_frame (TagValue config) payload @ rest"
    using t assms(4) by (simp add: pending_def latched_def config_def payload_def)
  have v: "valid_payload config payload" using assms(3) by (simp add: config_def payload_def)
  from Decode_complete [OF inv v pd]
  obtain tlv' inb' where dec: "Decode tlv inb = Inr (Decoded payload, tlv', inb')"
    "pending tlv' inb' = rest" by blast
  have ne: "ReadableBytes inb \<noteq> 0"
    using ReadableBytes_readable [OF assms(1)] assms(4) by (simp add: tlv_frame_def)
  have w0: "wf_buf (NewElasticUnsafeByteBuf (int (length payload)))"
    "readable (NewElasticUnsafeByteBuf (int (length payload))) = []"
    using New_wf [of "int (length payload)"] by simp_all
  from WriteBytes_wf [OF w0(1), of payload] w0(2)
  obtain b1 where b1: "WriteBytes (NewElasticUnsafeByteBuf (int (length payload))) payload = Inr b1"
    "wf_buf b1" "readable b1 = hi # lo # body" by (auto simp: payload_def)
  have rb1: "\<not> ReadableBytes b1 < 2"
    using ReadableBytes_readable [OF b1(2)] b1(3) by simp
  from binary_Read_uint16_two [OF b1(2,3)]
  obtain b2 where b2: "binary_Read_uint16 b1 = Inr (BigEndian_Uint16 hi lo, b2)" "wf_buf b2"
    "readable b2 = body" by blast
  have "0 \<le> ReadableBytes b2" "ReadableBytes b2 \<le> ReadableBytes b2"
    using ReadableBytes_readable [OF b2(2)] by simp_all
  from ReadBytes_wf [OF b2(2) this]
  obtain b3 where b3: "ReadBytes b2 (ReadableBytes b2) = Inr (take (nat (ReadableBytes b2)) (readable b2), b3)"
    by blast
  have ce: "createEntity (Config' d) (BigEndian_Uint16 hi lo) = None"
    using assms(5) by (simp add: createEntity_def)
  have "ApolloDecode unmarshal d inb = Inr (Nothing, d\<lparr>tlvDecoder := Some tlv'\<rparr>, inb')"
    using ne dec(1) b1(1) rb1 b2(1) b3 ce
    by (simp add: ApolloDecode_def tlv_def [symmetric] Let_def)
  with dec(2) show ?thesis by blast
qed


theorem ApolloDecode_unknown_type_code_witness:
  "\<exists>tlv' inb'.
     ApolloDecode (\<lambda>bs e. Inr e) (NewApolloFrameDecoder one_entity_config) unknown_input
       = Inr (Nothing, (NewApolloFrameDecoder one_entity_config)\<lparr>tlvDecoder := Some tlv'\<rparr>, inb') \<and>
     pending tlv' inb' = []"
proof -
  have 1: "wf_buf unknown_input"
    by (simp add: wf_buf_def unknown_input_def unknown_frame_def unknown_payload_def)
  have 2: "at_frame_start (NewApolloFrameDecoder one_entity_config)"
    by (simp add: at_frame_start_def NewApolloFrameDecoder_def)
  have 3: "valid_payload (tlvConfig (Config' (NewApolloFrameDecoder one_entity_config)))
             (0x00 # 0x07 # [0x2A])"
    by (simp add: valid_payload_def NewApolloFrameDecoder_def one_entity_config_def
        hello_config_def)
  have 4: "readable unknown_input =
             tlv_frame (TagValue (tlvConfig (Config' (NewApolloFrameDecoder one_entity_config))))
               (0x00 # 0x07 # [0x2A]) @ []"
    by (simp add: readable_def unknown_input_def unknown_frame_def unknown_payload_def
        tlv_frame_def length_be32_def NewApolloFrameDecoder_def one_entity_config_def
        hello_config_def)
  have 5: "entityConstructors (Config' (NewApolloFrameDecoder one_entity_config))
             (BigEndian_Uint16 0x00 0x07) = None"
    by (simp add: NewApolloFrameDecoder_def one_entity_config_def BigEndian_Uint16_def)
  from ApolloDecode_unknown_type_code [OF 1 2 3 4 5] show ?thesis .
qed

section \<open>Properties of the pipeline\<close>

lemma Init_state:
  "state (snd (Init cp)) = state cp \<or> (state cp = stateNew \<and> state (snd (Init cp)) = stateReady)"
  by (simp add: Init_def)

lemma Init_noop: "state cp \<noteq> stateNew \<Longrightarrow> Init cp = (None, cp)"
  by (simp add: Init_def)

lemma Init_inv: "pipeline_inv cp \<Longrightarrow> pipeline_inv (snd (Init cp))"
  by (simp add: Init_def pipeline_inv_def open_chan_def make_chan_def)

lemma Start_state:
  "state (snd (Start cp)) = state cp \<or> (state cp = stateReady \<and> state (snd (Start cp)) = stateRunning)"
  by (simp add: Start_def)

lemma Start_noop: "state cp \<noteq> stateReady \<Longrightarrow> Start cp = (None, cp)"
  by (simp add: Start_def)

lemma Start_inv: "pipeline_inv cp \<Longrightarrow> pipeline_inv (snd (Start cp))"
  by (simp add: Start_def pipeline_inv_def)

lemma chan_close_open: "open_chan c \<Longrightarrow> \<exists>ch. chan_close c = Inr (Some ch)"
  by (auto simp: open_chan_def chan_close_def split: option.splits)

lemma Stop_noop: "state cp \<noteq> stateRunning \<Longrightarrow> Stop b cp = Returns cp"
  by (simp add: Stop_def)

lemma Stop_running:
  assumes "pipeline_inv cp" "state cp = stateRunning"
  shows "Stop False cp = Blocks"
    and "\<exists>cp'. Stop True cp = Returns cp' \<and> state cp' = stateShutdown"
proof -
  from assms have o: "open_chan (inboundDataC cp)" "open_chan (outboundDataC cp)"
    "open_chan (inboundHandlerStopC cp)" "open_chan (outboundHandlerStopC cp)"
    by (simp_all add: pipeline_inv_def)
  from chan_close_open [OF o(1)] obtain a where a: "chan_close (inboundDataC cp) = Inr (Some a)" ..
  from chan_close_open [OF o(2)] obtain b where b: "chan_close (outboundDataC cp) = Inr (Some b)" ..
  from chan_close_open [OF o(3)] obtain c where c: "chan_close (inboundHandlerStopC cp) = Inr (Some c)" ..
  from chan_close_open [OF o(4)] obtain d where d: "chan_close (outboundHandlerStopC cp) = Inr (Some d)" ..
  show "Stop False cp = Blocks" using assms(2) c d by (simp add: Stop_def)
  show "\<exists>cp'. Stop True cp = Returns cp' \<and> state cp' = stateShutdown"
    using assms(2) a b c d by (simp add: Stop_def)
qed

lemma Stop_cases:
  assumes "pipeline_inv cp"
  shows "Stop b cp = Returns cp \<and> state cp \<noteq> stateRunning \<or>
         Stop b cp = Blocks \<and> state cp = stateRunning \<and> \<not> b \<or>
         (\<exists>cp'. Stop b cp = Returns cp' \<and> state cp = stateRunning \<and> b \<and> state cp' = stateShutdown)"
proof (cases "state cp = stateRunning")
  case False
  then show ?thesis by (simp add: Stop_noop)
next
  case True
  from Stop_running [OF assms True] True show ?thesis by (cases b) auto
qed

lemma step_not_Panics:
  assumes "pipeline_inv cp"
  shows "lifecycle_step call cp \<noteq> Panics p"
proof (cases call)
  case (CallStop b)
  with Stop_cases [OF assms, of b] show ?thesis by (auto simp: lifecycle_step_def)
qed (simp_all add: lifecycle_step_def)

lemma step_state:
  assumes "pipeline_inv cp" "lifecycle_step call cp = Returns cp'"
  shows "state cp' = state cp \<or>
         (call = CallInit \<and> state cp = stateNew \<and> state cp' = stateReady) \<or>
         (call = CallStart \<and> state cp = stateReady \<and> state cp' = stateRunning) \<or>
         (call = CallStop True \<and> state cp = stateRunning \<and> state cp' = stateShutdown)"
proof (cases call)
  case CallInit
  with assms(2) Init_state [of cp] show ?thesis by (auto simp: lifecycle_step_def)
next
  case CallStart
  with assms(2) Start_state [of cp] show ?thesis by (auto simp: lifecycle_step_def)
next
  case (CallStop b)
  with assms(2) Stop_cases [OF assms(1), of b] show ?thesis by (auto simp: lifecycle_step_def)
qed

lemma step_noop:
  assumes "(call = CallInit \<and> state cp \<noteq> stateNew) \<or> (call = CallStart \<and> state cp \<noteq> stateReady) \<or>
           (call = CallStop b \<and> state cp \<noteq> stateRunning)"
  shows "lifecycle_step call cp = Returns cp"
  using assms by (auto simp: lifecycle_step_def Init_noop Start_noop Stop_noop)

lemma step_inv:
  assumes "pipeline_inv cp" "lifecycle_step call cp = Returns cp'"
  shows "pipeline_inv cp'"
proof (cases call)
  case CallInit
  with assms Init_inv [of cp] show ?thesis by (auto simp: lifecycle_step_def)
next
  case CallStart
  with assms Start_inv [of cp] show ?thesis by (auto simp: lifecycle_step_def)
next
  case (CallStop b)
  with assms(2) Stop_cases [OF assms(1), of b] assms(1) show ?thesis
    by (auto simp: lifecycle_step_def pipeline_inv_def)
qed

lemma step_edges:
  assumes "pipeline_inv cp" "lifecycle_step call cp = Returns cp'"
  shows "state cp' = state cp \<or>
         edges_from (state cp) = (state cp, state cp') # edges_from (state cp')"
  using step_state [OF assms] by auto

lemma state_trace_hd: "state_trace cp calls = state cp # tl (state_trace cp calls)"
  by (cases calls) simp_all

lemma trace_edges:
  "pipeline_inv cp \<Longrightarrow> subseq (state_changes (state_trace cp calls)) (edges_from (state cp))"
proof (induction calls arbitrary: cp)
  case Nil
  then show ?case by simp
next
  case (Cons call calls)
  show ?case
  proof (cases "lifecycle_step call cp")
    case (Returns cp')
    from step_inv [OF Cons.prems Returns] have inv': "pipeline_inv cp'" .
    from Cons.IH [OF inv']
    have ih: "subseq (state_changes (state cp' # tl (state_trace cp' calls))) (edges_from (state cp'))"
      using state_trace_hd [of cp' calls] by simp
    have tr: "state_trace cp (call # calls) = state cp # state cp' # tl (state_trace cp' calls)"
      using Returns state_trace_hd [of cp' calls] by simp
    from step_edges [OF Cons.prems Returns] show ?thesis
    proof
      assume "state cp' = state cp"
      with ih show ?thesis unfolding tr by simp
    next
      assume e: "edges_from (state cp) = (state cp, state cp') # edges_from (state cp')"
      then have "state cp \<noteq> state cp'" by (cases "state cp") auto
      with ih e show ?thesis unfolding tr by simp
    qed
  next
    case (Panics p)
    then show ?thesis by simp
  next
    case Blocks
    then show ?thesis by simp
  qed
qed

lemma edges_from_subseq: "subseq (edges_from s) lifecycle_edges"
  by (cases s) (simp_all add: lifecycle_edges_def)


lemmas pipeline_eval = fresh_pipeline_def new_duplexPipeline_def ready_pipeline_def
  queued_pipeline_def shutdown_pipeline_def Init_def Start_def Stop_def chan_close_def
  make_chan_def dataChanSize_def cmdChanSize_def lifecycle_step_def

text \<open>
  C6. For a pipeline whose channels exist and are open while it is ready or running (the
  constructor gives such a pipeline and every call keeps it so): a lifecycle call never
  panics; when it returns, the state is unchanged or has moved along the call's own edge
  (\<open>Init\<close>: New to Ready, \<open>Start\<close>: Ready to Running, \<open>Stop\<close>: Running to Shutdown); a call
  made in any other state returns with the pipeline unchanged; and under any sequence of
  calls the state changes, in order, are a subsequence of New \<rightarrow> Ready \<rightarrow> Running \<rightarrow>
  Shutdown, so each edge is taken at most once.
\<close>

theorem lifecycle_order:
  assumes "pipeline_inv cp"
  shows "(\<forall>p. lifecycle_step call cp \<noteq> Panics p) \<and>
         (\<forall>cp'. lifecycle_step call cp = Returns cp' \<longrightarrow>
            state cp' = state cp \<or>
            (call = CallInit \<and> state cp = stateNew \<and> state cp' = stateReady) \<or>
            (call = CallStart \<and> state cp = stateReady \<and> state cp' = stateRunning) \<or>
            (call = CallStop True \<and> state cp = stateRunning \<and> state cp' = stateShutdown)) \<and>
         ((call = CallInit \<and> state cp \<noteq> stateNew) \<or>
          (call = CallStart \<and> state cp \<noteq> stateReady) \<or>
          (call = CallStop b \<and> state cp \<noteq> stateRunning)
            \<longrightarrow> lifecycle_step call cp = Returns cp) \<and>
         subseq (state_changes (state_trace cp calls)) lifecycle_edges"
proof -
  have "subseq (state_changes (state_trace cp calls)) lifecycle_edges"
    using trace_edges [OF assms, of calls] edges_from_subseq [of "state cp"]
    by (rule subseq_order.order_trans)
  then show ?thesis
    using step_not_Panics [OF assms, of call] step_state [OF assms, of call]
      step_noop [of call cp b]
    by blast
qed

theorem lifecycle_order_witness:
  "pipeline_inv ready_pipeline \<and>
   state ready_pipeline = stateReady \<and>
   lifecycle_step CallInit ready_pipeline = Returns ready_pipeline \<and>
   state_trace fresh_pipeline lifecycle_script =
     [stateNew, stateReady, stateReady, stateRunning, stateShutdown, stateShutdown,
      stateShutdown, stateShutdown] \<and>
   subseq (state_changes (state_trace ready_pipeline lifecycle_script)) lifecycle_edges"
proof -
  have inv: "pipeline_inv ready_pipeline"
    by (simp add: pipeline_inv_def open_chan_def pipeline_eval)
  have st: "state ready_pipeline = stateReady" by (simp add: pipeline_eval)
  have tr: "state_trace fresh_pipeline lifecycle_script =
     [stateNew, stateReady, stateReady, stateRunning, stateShutdown, stateShutdown,
      stateShutdown, stateShutdown]"
    by (simp add: lifecycle_script_def pipeline_eval)
  from lifecycle_order [OF inv, of CallInit True lifecycle_script] inv st tr
  show ?thesis by simp
qed

text \<open>
  C10. For every pipeline and callback, \<open>SendFuture\<close> with the \<^verbatim>\<open>nil\<close> message returns at
  once, invokes no callback and leaves the pipeline (its outbound queue included)
  unchanged; and \<open>Send\<close> with the \<^verbatim>\<open>nil\<close> message waits forever on its result channel.
\<close>

theorem Send_nil_blocks:
  "SendFuture cp None cb = ([], Returns cp) \<and> Send cp None = SendBlocksForever"
  by (simp add: Send_def SendFuture_def)

text \<open>
  In the running state \<open>SendFuture\<close> does what C3 says: no callback during the call, the
  entry at the end of the outbound queue (when the queue has room); and a round of the
  outbound worker invokes the callback of the entry it takes once, with the encode error
  or with the result of the write.
\<close>

lemma SendFuture_running:
  assumes "state cp = stateRunning" "outboundDataC cp = Some ch" "\<not> closed ch"
    "length (items ch) < cap ch"
  shows "SendFuture cp (Some m) (Some f) =
           ([], Returns (cp\<lparr>outboundDataC :=
                   Some (ch\<lparr>items := items ch @ [\<lparr>Data = m, Callback = Some f\<rparr>]\<rparr>)\<rparr>))"
  using assms by (simp add: SendFuture_def chan_send_def)

lemma handleOutbound_round_callback:
  assumes "outboundDataC cp = Some ch" "items ch = \<lparr>Data = m, Callback = Some f\<rparr> # rest"
  shows "\<exists>errs cp'. handleOutbound_round encode writeErr cp =
           Some (errs,
                 [(f, case encode m of Inl e \<Rightarrow> Some (CodecError e) | Inr _ \<Rightarrow> writeErr)], cp')"
  using assms by (simp add: handleOutbound_round_def split: sum.splits)

text \<open>
  C3 at the failing input: the pipeline after \<open>Init\<close>, before \<open>Start\<close>. \<open>SendFuture\<close> with
  message 5 and callback 1 invokes the callback with the closed-pipeline error and also
  pushes the entry; once the pipeline is started, the outbound worker takes the entry and
  invokes the same callback again. After \<open>Stop\<close> the same call invokes the callback and
  then panics on the closed queue.
\<close>

theorem SendFuture_not_running_also_enqueues:
  "state ready_pipeline = stateReady \<and>
   SendFuture ready_pipeline (Some 5) (Some (UserFunc 1)) =
     ([(UserFunc 1, Some PipelineClosed)], Returns queued_pipeline) \<and>
   handleOutbound_round (\<lambda>m. Inr []) None (snd (Start queued_pipeline)) =
     Some ([], [(UserFunc 1, None)],
           (snd (Start queued_pipeline))\<lparr>outboundDataC :=
              Some \<lparr>items = [], cap = 10, closed = False\<rparr>\<rparr>) \<and>
   state shutdown_pipeline = stateShutdown \<and>
   SendFuture shutdown_pipeline (Some 5) (Some (UserFunc 1)) =
     ([(UserFunc 1, Some PipelineClosed)], Panics SendOnClosedChannel)"
  by (simp add: pipeline_eval SendFuture_def chan_send_def handleOutbound_round_def)

section \<open>Properties of the acknowledgement manager\<close>

text \<open>
  C7 (as amended). For a key that is not \<^verbatim>\<open>nil\<close> and a manager that holds no slot for
  it, or a slot without a buffered commit: \<open>InitAck\<close>, then \<open>CommitAck\<close> with \<open>v\<close>, then
  \<open>WaitAck\<close> without a timer (\<open>timeout \<le> 0\<close>), or with a timer that does not win the
  \<^verbatim>\<open>select\<close>, returns \<open>(v, nil)\<close>, and the slot is gone afterwards.
\<close>

theorem init_commit_wait_delivers:
  assumes "m k = None \<or> m k = Some (make_chan 2)"
    and "timeout \<le> 0 \<or> \<not> timer_wins"
  shows "init_commit_wait m (Some k) v timeout timer_wins = Returns ((v, None), m(k := None))"
proof -
  have i: "InitAck m (Some k) = m(k \<mapsto> make_chan 2)"
    using assms(1) by (auto simp: InitAck_def)
  have c: "CommitAck (m(k \<mapsto> make_chan 2)) (Some k) v =
             Returns (m(k \<mapsto> \<lparr>items = [\<lparr>data = v, err = None\<rparr>], cap = 2, closed = False\<rparr>))"
    by (simp add: CommitAck_def chan_send_def make_chan_def)
  show ?thesis
    using assms(2) by (auto simp: init_commit_wait_def i c WaitAck_def)
qed

theorem init_commit_wait_delivers_witness:
  "init_commit_wait (Map.empty :: (nat, nat) SafeAckManager) (Some 7) (Some 42) 0 False
     = Returns ((Some 42, None), Map.empty)"
  using init_commit_wait_delivers [of Map.empty 7 0 False "Some 42"] by simp

text \<open>
  C7 as stated fails for the \<^verbatim>\<open>nil\<close> key, for which all three calls return at once and
  \<open>WaitAck\<close> gives \<open>(nil, nil)\<close>; and on a manager that still holds an earlier commit for
  the key, which is what the wait returns.
\<close>

theorem init_commit_wait_counterexample:
  "init_commit_wait (Map.empty :: (nat, nat) SafeAckManager) None (Some 42) 0 False
     = Returns ((None, None), Map.empty) \<and>
   init_commit_wait stale_manager (Some 7) (Some 42) 0 False
     = Returns ((Some 1, None), Map.empty)"
  by (simp add: init_commit_wait_def InitAck_def CommitAck_def WaitAck_def chan_send_def
      stale_manager_def)

end
